theory Spec2Isabelle
  imports Main "HOL-Library.AList" "HOL-Library.List_Lexorder" "HOL-Library.Char_ord"
    "HOL-Library.Product_Lexorder"
begin

section \<open>Strings\<close>

text \<open>
  A Python \<open>str\<close> is modelled as a HOL \<open>string\<close>, one \<open>char\<close> per code point. The
  model of \<open>str.strip\<close>, \<open>str.lower\<close>, \<open>str.casefold\<close> and of the regular expression class
  \<open>\s\<close> is exact on ASCII text (code points below 128): the ASCII characters Python counts
  as whitespace are 9 to 13 and 28 to 32, and on ASCII \<open>casefold\<close> and \<open>lower\<close> coincide.
  Characters from 128 on are carried through unchanged and never count as whitespace.
  Comparison of two strings (\<open>a <= b\<close>) is lexicographic by code point, which is the order
  of \<open>HOL-Library.List_Lexorder\<close> over \<open>HOL-Library.Char_ord\<close>.
\<close>

definition is_space :: "char \<Rightarrow> bool" where
  "is_space c = (let n = (of_char c :: nat) in (9 \<le> n \<and> n \<le> 13) \<or> (28 \<le> n \<and> n \<le> 32))"

definition lower_char :: "char \<Rightarrow> char" where
  "lower_char c =
     (case map_of (zip ''ABCDEFGHIJKLMNOPQRSTUVWXYZ'' ''abcdefghijklmnopqrstuvwxyz'') c of
        Some l \<Rightarrow> l
      | None \<Rightarrow> c)"

definition lower :: "string \<Rightarrow> string" where
  "lower s = map lower_char s"

definition casefold :: "string \<Rightarrow> string" where
  "casefold s = map lower_char s"

definition strip :: "string \<Rightarrow> string" where
  "strip s = rev (dropWhile is_space (rev (dropWhile is_space s)))"

fun startswith :: "string \<Rightarrow> string \<Rightarrow> bool" where
  "startswith s [] = True"
| "startswith [] (p # ps) = False"
| "startswith (c # cs) (p # ps) = (c = p \<and> startswith cs ps)"

text \<open>\<open>re.sub(r"\s+", " ", s)\<close>: every maximal run of whitespace becomes one space.\<close>

function collapse_ws :: "string \<Rightarrow> string" where
  "collapse_ws [] = []"
| "collapse_ws (c # cs) =
     (if is_space c then CHR '' '' # collapse_ws (dropWhile is_space cs)
      else c # collapse_ws cs)"
  by pat_completeness auto
termination
  by (relation "measure length") (auto simp: length_dropWhile_le less_Suc_eq_le)

section \<open>Values and records\<close>

text \<open>
  A field value is \<open>None\<close> or a string (the rows come from the CSV reader and from stripped
  page text). A row is a Python \<open>dict\<close>: an association list with distinct keys, in
  insertion order; \<open>d[k] = v\<close> is \<open>AList.update k v d\<close>, \<open>k in d\<close> and \<open>d.get(k)\<close> read
  \<open>map_of d k\<close>, and \<open>d1 == d2\<close> is \<open>map_of d1 = map_of d2\<close>.
\<close>

datatype pyval = PNone | PStr string

fun str :: "pyval \<Rightarrow> string" where
  "str PNone = ''None''"
| "str (PStr s) = s"

type_synonym row = "(string \<times> pyval) list"

section \<open>Merging an incoming row into a stored row\<close>

text \<open>
  \<^verbatim>\<open>
  def merge_rows(old_row, new_row):
      merged = dict(old_row) if old_row else {}
      for k, v in new_row.items():
          if v is None: continue
          sv = str(v).strip()
          if (not sv) or (sv.lower() == 'unknown'):
              if k in merged and str(merged[k]).strip():
                  continue
          merged[k] = sv
      return merged
  \<close>
  \<open>merge_step\<close> is one iteration of the loop.
\<close>

definition merge_step :: "string \<times> pyval \<Rightarrow> row \<Rightarrow> row" where
  "merge_step kv merged =
     (case kv of (k, v) \<Rightarrow>
        (case v of
           PNone \<Rightarrow> merged
         | PStr s \<Rightarrow>
             (let sv = strip s in
              if (sv = [] \<or> lower sv = ''unknown'') \<and>
                 (case map_of merged k of None \<Rightarrow> False | Some ov \<Rightarrow> strip (str ov) \<noteq> [])
              then merged
              else AList.update k (PStr sv) merged)))"

definition merge_rows :: "row \<Rightarrow> row \<Rightarrow> row" where
  "merge_rows old_row new_row = fold merge_step new_row (if old_row \<noteq> [] then old_row else [])"

section \<open>Dates\<close>

text \<open>
  A \<open>datetime.date\<close> is the triple (year, month, day); Python compares dates in that
  lexicographic order, which is the order of \<open>HOL-Library.Product_Lexorder\<close>.
  \<open>toordinal\<close> follows \<open>date.toordinal\<close> (day 1 is 0001-01-01), so that
  \<open>(a - b).days\<close> is \<open>toordinal a - toordinal b\<close>.
\<close>

type_synonym date = "nat \<times> nat \<times> nat"

definition date_min :: date where
  "date_min = (1, 1, 1)"

definition is_leap :: "nat \<Rightarrow> bool" where
  "is_leap y = (y mod 4 = 0 \<and> (y mod 100 \<noteq> 0 \<or> y mod 400 = 0))"

definition days_in_month :: "nat \<Rightarrow> nat \<Rightarrow> nat" where
  "days_in_month y m =
     (if m = 2 then (if is_leap y then 29 else 28)
      else if m = 4 \<or> m = 6 \<or> m = 9 \<or> m = 11 then 30 else 31)"

definition days_before_year :: "nat \<Rightarrow> int" where
  "days_before_year y =
     (let p = int y - 1 in p * 365 + p div 4 - p div 100 + p div 400)"

definition days_before_month :: "nat \<Rightarrow> nat \<Rightarrow> int" where
  "days_before_month y m = int (sum_list (map (days_in_month y) [1..<m]))"

definition toordinal :: "date \<Rightarrow> int" where
  "toordinal dt = (case dt of (y, m, d) \<Rightarrow> days_before_year y + days_before_month y m + int d)"

definition valid_date :: "nat \<Rightarrow> nat \<Rightarrow> nat \<Rightarrow> bool" where
  "valid_date y m d =
     (1 \<le> y \<and> y \<le> 9999 \<and> 1 \<le> m \<and> m \<le> 12 \<and> 1 \<le> d \<and> d \<le> days_in_month y m)"

section \<open>Parsing a date\<close>

text \<open>
  \<open>datetime.strptime(s, fmt)\<close> turns the format into a regular expression (CPython's
  \<open>_strptime.TimeRE.pattern\<close>): a run of whitespace in the format becomes \<open>\s+\<close>, a
  directive \<open>%x\<close> becomes a group of alternatives, any other character stands for itself;
  the expression is matched at the start of \<open>s\<close>, ignoring case, and the first match in
  backtracking order is taken. The call raises \<open>ValueError\<close> when nothing matches, when
  the match leaves text unconverted, or when year, month and day are not a date;
  \<open>parse_date_to_obj\<close> catches every exception and moves on to the next format.
  The directives of \<open>DATE_FORMATS\<close> are
  \<^item> \<open>%d\<close>: \<open>3[0-1]|[1-2]\d|0[1-9]|[1-9]| [1-9]\<close>,
  \<^item> \<open>%m\<close>: \<open>1[0-2]|0[1-9]|[1-9]\<close>,
  \<^item> \<open>%Y\<close>: \<open>\d\d\d\d\<close>,
  \<^item> \<open>%B\<close> and \<open>%b\<close>: the month names, full and abbreviated, of the English (C) locale,
    longest first.
  A matcher returns every way to match, in the order in which backtracking tries them.
\<close>

datatype tok = Lit char | Ws | Dir char | Bad

function compile_fmt :: "string \<Rightarrow> tok list" where
  "compile_fmt [] = []"
| "compile_fmt (c # cs) =
     (if is_space c then Ws # compile_fmt (dropWhile is_space cs)
      else if c = CHR ''%'' then
        (case cs of [] \<Rightarrow> [Bad] | x # rest \<Rightarrow> Dir x # compile_fmt rest)
      else Lit c # compile_fmt cs)"
  by pat_completeness auto
termination
  by (relation "measure length") (auto simp: length_dropWhile_le less_Suc_eq_le)

definition digit_val :: "char \<Rightarrow> nat option" where
  "digit_val c = map_of (zip ''0123456789'' [0, 1, 2, 3, 4, 5, 6, 7, 8, 9]) c"

definition nonzero_digit_val :: "char \<Rightarrow> nat option" where
  "nonzero_digit_val c = map_of (zip ''123456789'' [1, 2, 3, 4, 5, 6, 7, 8, 9]) c"

text \<open>Two characters, the first in \<open>as\<close> and the second recognised by \<open>dv\<close>.\<close>

definition two_chars :: "string \<Rightarrow> (char \<Rightarrow> nat option) \<Rightarrow> string \<Rightarrow> (nat \<times> string) list" where
  "two_chars as dv s =
     (case s of
        a # b # r \<Rightarrow>
          (case (if a \<in> set as then digit_val a else None, dv b) of
             (Some x, Some y) \<Rightarrow> [(10 * x + y, r)]
           | _ \<Rightarrow> [])
      | _ \<Rightarrow> [])"

definition one_char :: "string \<Rightarrow> (nat \<times> string) list" where
  "one_char s =
     (case s of
        a # r \<Rightarrow> (case nonzero_digit_val a of Some x \<Rightarrow> [(x, r)] | None \<Rightarrow> [])
      | _ \<Rightarrow> [])"

definition space_char :: "string \<Rightarrow> (nat \<times> string) list" where
  "space_char s =
     (case s of
        a # b # r \<Rightarrow>
          (if a = CHR '' '' then
             (case nonzero_digit_val b of Some x \<Rightarrow> [(x, r)] | None \<Rightarrow> [])
           else [])
      | _ \<Rightarrow> [])"

definition alt_d :: "string \<Rightarrow> (nat \<times> string) list" where
  "alt_d s = two_chars ''3'' (\<lambda>b. if b \<in> set ''01'' then digit_val b else None) s
           @ two_chars ''12'' digit_val s
           @ two_chars ''0'' nonzero_digit_val s
           @ one_char s
           @ space_char s"

definition alt_m :: "string \<Rightarrow> (nat \<times> string) list" where
  "alt_m s = two_chars ''1'' (\<lambda>b. if b \<in> set ''012'' then digit_val b else None) s
           @ two_chars ''0'' nonzero_digit_val s
           @ one_char s"

definition alt_Y :: "string \<Rightarrow> (nat \<times> string) list" where
  "alt_Y s =
     (case s of
        a # b # c # d # r \<Rightarrow>
          (case (digit_val a, digit_val b, digit_val c, digit_val d) of
             (Some w, Some x, Some y, Some z) \<Rightarrow> [(1000 * w + 100 * x + 10 * y + z, r)]
           | _ \<Rightarrow> [])
      | _ \<Rightarrow> [])"

definition f_month :: "string list" where
  "f_month = [''january'', ''february'', ''march'', ''april'', ''may'', ''june'', ''july'',
              ''august'', ''september'', ''october'', ''november'', ''december'']"

definition a_month :: "string list" where
  "a_month = [''jan'', ''feb'', ''mar'', ''apr'', ''may'', ''jun'', ''jul'',
              ''aug'', ''sep'', ''oct'', ''nov'', ''dec'']"

text \<open>
  \<open>seqToRE\<close>: the names sorted by length, longest first (\<open>sorted(..., key=len,
  reverse=True)\<close>, a stable sort). The month is the name's index, counted from 1.
\<close>

definition seqToRE :: "string list \<Rightarrow> (string \<times> nat) list" where
  "seqToRE names = rev (sort_key (\<lambda>p. length (fst p)) (rev (zip names [1..<Suc (length names)])))"

definition alt_name :: "string list \<Rightarrow> string \<Rightarrow> (nat \<times> string) list" where
  "alt_name names s =
     concat (map (\<lambda>(nm, i). if lower (take (length nm) s) = nm then [(i, drop (length nm) s)] else [])
                 (seqToRE names))"

text \<open>\<open>\s+\<close> is greedy: the longest run first, then shorter ones, never the empty one.\<close>

definition alt_ws :: "string \<Rightarrow> string list" where
  "alt_ws s = map (\<lambda>k. drop k s) (rev [1..<Suc (length (takeWhile is_space s))])"

definition alt_lit :: "char \<Rightarrow> string \<Rightarrow> string list" where
  "alt_lit c s = (case s of a # r \<Rightarrow> (if lower_char a = lower_char c then [r] else []) | [] \<Rightarrow> [])"

definition alts :: "tok \<Rightarrow> date \<Rightarrow> string \<Rightarrow> (date \<times> string) list" where
  "alts t f s =
     (case f of (y, m, d) \<Rightarrow>
        (case t of
           Lit c \<Rightarrow> map (\<lambda>r. (f, r)) (alt_lit c s)
         | Ws \<Rightarrow> map (\<lambda>r. (f, r)) (alt_ws s)
         | Bad \<Rightarrow> []
         | Dir x \<Rightarrow>
             (if x = CHR ''d'' then map (\<lambda>(v, r). ((y, m, v), r)) (alt_d s)
              else if x = CHR ''m'' then map (\<lambda>(v, r). ((y, v, d), r)) (alt_m s)
              else if x = CHR ''Y'' then map (\<lambda>(v, r). ((v, m, d), r)) (alt_Y s)
              else if x = CHR ''B'' then map (\<lambda>(v, r). ((y, v, d), r)) (alt_name f_month s)
              else if x = CHR ''b'' then map (\<lambda>(v, r). ((y, v, d), r)) (alt_name a_month s)
              else [])))"

fun match_toks :: "tok list \<Rightarrow> date \<Rightarrow> string \<Rightarrow> (date \<times> string) list" where
  "match_toks [] f s = [(f, s)]"
| "match_toks (t # ts) f s = concat (map (\<lambda>(f', r). match_toks ts f' r) (alts t f s))"

text \<open>
  \<open>datetime.strptime(s, fmt).date()\<close>, with \<open>None\<close> for a raised exception. The fields
  start at 1900-01-01; every format of \<open>DATE_FORMATS\<close> sets all three.
\<close>

definition strptime_date :: "string \<Rightarrow> string \<Rightarrow> date option" where
  "strptime_date s fmt =
     (case match_toks (compile_fmt fmt) (1900, 1, 1) s of
        [] \<Rightarrow> None
      | (f, r) # _ \<Rightarrow>
          (if r \<noteq> [] then None
           else (case f of (y, m, d) \<Rightarrow> if valid_date y m d then Some (y, m, d) else None)))"

definition DATE_FORMATS :: "string list" where
  "DATE_FORMATS = [''%B %d, %Y'', ''%b %d, %Y'', ''%Y-%m-%d'', ''%m/%d/%Y'',
                   ''%d %B %Y'', ''%d %b %Y'', ''%b-%d-%Y'', ''%B-%d-%Y'']"

fun try_formats :: "string list \<Rightarrow> string \<Rightarrow> date option" where
  "try_formats [] s = None"
| "try_formats (fmt # fmts) s =
     (case strptime_date s fmt of Some d \<Rightarrow> Some d | None \<Rightarrow> try_formats fmts s)"

definition remove_commas :: "string \<Rightarrow> string" where
  "remove_commas s = filter (\<lambda>c. c \<noteq> CHR '','') s"

text \<open>
  \<^verbatim>\<open>
  def parse_date_to_obj(s):
      if not s:
          return None
      s = re.sub(r"\s+", " ", s.strip())
      for fmt in DATE_FORMATS:
          try: return datetime.strptime(s, fmt).date()
          except Exception: pass
      s2 = s.replace(",", "")
      for fmt in [f.replace(",", "") for f in DATE_FORMATS]:
          try: return datetime.strptime(s2, fmt).date()
          except Exception: pass
      return None
  \<close>
\<close>

definition parse_date_to_obj :: "pyval \<Rightarrow> date option" where
  "parse_date_to_obj v =
     (case v of
        PNone \<Rightarrow> None
      | PStr s0 \<Rightarrow>
          (if s0 = [] then None
           else (let s = collapse_ws (strip s0) in
                 case try_formats DATE_FORMATS s of
                   Some d \<Rightarrow> Some d
                 | None \<Rightarrow> try_formats (map remove_commas DATE_FORMATS) (remove_commas s))))"

section \<open>Merge keys\<close>

definition digit_char :: "nat \<Rightarrow> char" where
  "digit_char n = ''0123456789'' ! (n mod 10)"

text \<open>\<open>date.isoformat\<close> is \<open>"%04d-%02d-%02d"\<close>; the year of a date has at most four digits.\<close>

definition isoformat :: "date \<Rightarrow> string" where
  "isoformat dt =
     (case dt of (y, m, d) \<Rightarrow>
        [digit_char (y div 1000), digit_char (y div 100), digit_char (y div 10), digit_char y]
        @ ''-'' @ [digit_char (m div 10), digit_char m]
        @ ''-'' @ [digit_char (d div 10), digit_char d])"

definition to_iso :: "date option \<Rightarrow> string" where
  "to_iso d = (case d of Some dt \<Rightarrow> isoformat dt | None \<Rightarrow> [])"

text \<open>
  \<^verbatim>\<open>
  def norm_name(name):
      if not name:
          return ""
      return re.sub(r"\s+", " ", name).strip().casefold()
  \<close>
\<close>

definition norm_name :: "pyval \<Rightarrow> string" where
  "norm_name v =
     (case v of
        PNone \<Rightarrow> []
      | PStr name \<Rightarrow> if name = [] then [] else casefold (strip (collapse_ws name)))"

text \<open>
  \<^verbatim>\<open>
  def legacy_key(date_str, f1, f2):
      iso = to_iso(parse_date_to_obj(date_str))
      a, b = norm_name(f1), norm_name(f2)
      if a <= b:
          return f"{iso}|{a}|{b}"
      else:
          return f"{iso}|{b}|{a}"
  \<close>
\<close>

definition legacy_key :: "string \<Rightarrow> string \<Rightarrow> string \<Rightarrow> string" where
  "legacy_key date_str f1 f2 =
     (let iso = to_iso (parse_date_to_obj (PStr date_str));
          a = norm_name (PStr f1);
          b = norm_name (PStr f2)
      in if a \<le> b then iso @ ''|'' @ a @ ''|'' @ b
         else iso @ ''|'' @ b @ ''|'' @ a)"

section \<open>The record store\<close>

text \<open>
  \<open>key_to_row\<close> maps a merge key to its row. Equality of two rows, as Python's
  \<open>merged != key_to_row[k]\<close> tests it, compares the value under every key of either.
\<close>

definition dict_eq :: "row \<Rightarrow> row \<Rightarrow> bool" where
  "dict_eq a b = list_all (\<lambda>k. map_of a k = map_of b k) (map fst a @ map fst b)"

text \<open>
  The handling of one observed row in \<open>main\<close>, for its key \<open>k\<close>:
  \<^verbatim>\<open>
  have_already = k in key_to_row
  if have_already and not UPDATE_EXISTING:
      continue
  ...
  if have_already:
      merged = merge_rows(key_to_row[k], rowdict)
      if merged != key_to_row[k]:
          key_to_row[k] = merged
  else:
      key_to_row[k] = rowdict
  \<close>
\<close>

definition upsert :: "bool \<Rightarrow> (string \<times> row) list \<Rightarrow> string \<Rightarrow> row \<Rightarrow> (string \<times> row) list" where
  "upsert update_existing key_to_row k rowdict =
     (case map_of key_to_row k of
        Some stored \<Rightarrow>
          (if \<not> update_existing then key_to_row
           else (let merged = merge_rows stored rowdict in
                 if \<not> dict_eq merged stored then AList.update k merged key_to_row
                 else key_to_row))
      | None \<Rightarrow> AList.update k rowdict key_to_row)"

section \<open>Knowledge base: choosing a value\<close>

text \<open>
  \<^verbatim>\<open>
  BLANK_TOKENS = {"", "unknown", "n/a", "na", "null", "none", "-", <dash>}
  def is_blank(v):
      if v is None:
          return True
      return str(v).strip().lower() in BLANK_TOKENS
  \<close>
  The last token of the source is a dash whose bytes were decoded wrongly; it is not ASCII,
  is written here by its bytes and equals no ASCII string.
\<close>

definition BLANK_TOKENS :: "string list" where
  "BLANK_TOKENS = [[], ''unknown'', ''n/a'', ''na'', ''null'', ''none'', ''-'',
                   [CHR 0xE2, CHR 0x80, CHR 0x9A, CHR 0xC3, CHR 0x84, CHR 0xC3, CHR 0xAE]]"

definition is_blank :: "pyval \<Rightarrow> bool" where
  "is_blank v = (case v of PNone \<Rightarrow> True | PStr s \<Rightarrow> lower (strip s) \<in> set BLANK_TOKENS)"

text \<open>
  A \<open>Counter\<close> is a dict from value to count, here the list of its items in insertion
  order. \<open>Counter.most_common()\<close> is \<open>sorted(items, key=itemgetter(1), reverse=True)\<close>:
  by falling count, items of equal count in insertion order.
\<close>

type_synonym counter = "(string \<times> nat) list"

definition most_common :: "counter \<Rightarrow> (string \<times> nat) list" where
  "most_common c = rev (sort_key snd (rev c))"

text \<open>
  \<^verbatim>\<open>
  def choose_mode_with_recent_fallback(counter, timeline):
      if counter:
          most_common = counter.most_common()
          top_count = most_common[0][1]
          candidates = [val for val, cnt in most_common if cnt == top_count]
          if len(candidates) == 1:
              return candidates[0]
          for d, val in reversed(timeline):
              if val in candidates:
                  return val
      for d, val in reversed(timeline):
          if not is_blank(val):
              return val
      return None
  \<close>
  \<open>mode_or_tie\<close> is the body of \<open>if counter:\<close>, with \<open>None\<close> when it falls through;
  it runs on a non-empty counter only, so that \<open>most_common[0]\<close> and \<open>candidates[0]\<close>
  exist.
\<close>

definition mode_or_tie :: "counter \<Rightarrow> (date \<times> string) list \<Rightarrow> string option" where
  "mode_or_tie c timeline =
     (let mc = most_common c;
          top_count = snd (hd mc);
          candidates = map fst (filter (\<lambda>(val, cnt). cnt = top_count) mc)
      in if length candidates = 1 then Some (hd candidates)
         else map_option snd (find (\<lambda>(d, val). val \<in> set candidates) (rev timeline)))"

definition choose_mode_with_recent_fallback ::
    "counter \<Rightarrow> (date \<times> string) list \<Rightarrow> string option" where
  "choose_mode_with_recent_fallback c timeline =
     (case (if c \<noteq> [] then mode_or_tie c timeline else None) of
        Some val \<Rightarrow> Some val
      | None \<Rightarrow> map_option snd (find (\<lambda>(d, val). \<not> is_blank (PStr val)) (rev timeline)))"

text \<open>
  \<^verbatim>\<open>
  def find_gym_for_date(timeline, target, mode_value):
      prev_val = None
      for d, val in timeline:
          if d <= target and not is_blank(val):
              prev_val = val
          if d > target:
              break
      if prev_val:
          return prev_val
      for d, val in timeline:
          if d >= target and not is_blank(val):
              return val
      return mode_value
  \<close>
  \<open>scan_prev\<close> is the first loop.
\<close>

fun scan_prev :: "(date \<times> string) list \<Rightarrow> date \<Rightarrow> string option \<Rightarrow> string option" where
  "scan_prev [] target prev_val = prev_val"
| "scan_prev ((d, val) # rest) target prev_val =
     (let prev_val' = (if d \<le> target \<and> \<not> is_blank (PStr val) then Some val else prev_val)
      in if d > target then prev_val' else scan_prev rest target prev_val')"

definition find_gym_for_date ::
    "(date \<times> string) list \<Rightarrow> date \<Rightarrow> string option \<Rightarrow> string option" where
  "find_gym_for_date timeline target mode_value =
     (case scan_prev timeline target None of
        Some prev_val \<Rightarrow>
          (if prev_val \<noteq> [] then Some prev_val
           else (case find (\<lambda>(d, val). d \<ge> target \<and> \<not> is_blank (PStr val)) timeline of
                   Some (d, val) \<Rightarrow> Some val
                 | None \<Rightarrow> mode_value))
      | None \<Rightarrow>
          (case find (\<lambda>(d, val). d \<ge> target \<and> \<not> is_blank (PStr val)) timeline of
             Some (d, val) \<Rightarrow> Some val
           | None \<Rightarrow> mode_value))"

text \<open>
  The mode handed to \<open>find_gym_for_date\<close> by \<open>backfill_born_gym\<close>:
  \<^verbatim>\<open>
  gym_mode = info['gym_counts'].most_common(1)[0][0] if info['gym_counts'] else None
  \<close>
  \<open>most_common(1)\<close> is \<open>heapq.nlargest(1, items, key=itemgetter(1))\<close>, which is
  \<open>max(items, key=itemgetter(1))\<close>: the first item of the largest count.
\<close>

fun max_by_count :: "string \<times> nat \<Rightarrow> (string \<times> nat) list \<Rightarrow> string \<times> nat" where
  "max_by_count best [] = best"
| "max_by_count best (x # xs) = max_by_count (if snd x > snd best then x else best) xs"

definition gym_mode :: "counter \<Rightarrow> string option" where
  "gym_mode c = (case c of [] \<Rightarrow> None | x # xs \<Rightarrow> Some (fst (max_by_count x xs)))"

section \<open>Running tallies\<close>

datatype side = F1 | F2

text \<open>\<open>r.get(k, '')\<close> and \<open>v or ''\<close>.\<close>

definition get :: "row \<Rightarrow> string \<Rightarrow> pyval" where
  "get r k = (case map_of r k of None \<Rightarrow> PStr [] | Some v \<Rightarrow> v)"

definition or_empty :: "pyval \<Rightarrow> string" where
  "or_empty v = (case v of PNone \<Rightarrow> [] | PStr s \<Rightarrow> s)"

text \<open>\<open>parse_date_to_obj(r.get('event_date', '')) or date.min\<close>.\<close>

definition event_date_or_min :: "row \<Rightarrow> date" where
  "event_date_or_min r =
     (case parse_date_to_obj (get r ''event_date'') of None \<Rightarrow> date_min | Some d \<Rightarrow> d)"

text \<open>\<open>str(n)\<close> for a count.\<close>

fun str_nat :: "nat \<Rightarrow> string" where
  "str_nat n = (if n < 10 then [digit_char n] else str_nat (n div 10) @ [digit_char (n mod 10)])"

declare str_nat.simps [simp del]

text \<open>
  \<^verbatim>\<open>
  def compute_ufc_counters(rows):
      timeline = defaultdict(list)  # fighter -> [(date, side, row)]
      for r in rows:
          d = parse_date_to_obj(r.get('event_date', '')) or date.min
          n1 = norm_name(r.get('fighter_1', ''))
          n2 = norm_name(r.get('fighter_2', ''))
          if n1: timeline[n1].append((d, 'f1', r))
          if n2: timeline[n2].append((d, 'f2', r))
      for fighter, items in timeline.items():
          items.sort(key=lambda x: x[0])  # chronological
          wins = losses = 0
          for d, side, r in items:
              if side == 'f1':
                  r['fighter_1_ufcwins'] = str(wins)
                  r['fighter_1_ufcloss'] = str(losses)
              else:
                  r['fighter_2_ufcwins'] = str(wins)
                  r['fighter_2_ufcloss'] = str(losses)
              res = (r.get('result', '') or '').strip().lower()
              if res.startswith('win'):
                  if side == 'f1': wins += 1
                  else: losses += 1
              elif res.startswith('loss') or res.startswith('l'):
                  if side == 'f1': losses += 1
                  else: wins += 1
  \<close>
  An item of a timeline refers to its row, which the walk then mutates: the reference is
  the row's index in \<open>rows\<close>, and the walk returns the list of rows after its writes.
\<close>

type_synonym item = "date \<times> side \<times> nat"

type_synonym timeline = "(string \<times> item list) list"

definition timeline_append :: "string \<Rightarrow> item \<Rightarrow> timeline \<Rightarrow> timeline" where
  "timeline_append n x tln =
     (case map_of tln n of
        None \<Rightarrow> AList.update n [x] tln
      | Some xs \<Rightarrow> AList.update n (xs @ [x]) tln)"

definition timeline_row :: "nat \<Rightarrow> row \<Rightarrow> timeline \<Rightarrow> timeline" where
  "timeline_row i r tln =
     (let d = event_date_or_min r;
          n1 = norm_name (get r ''fighter_1'');
          n2 = norm_name (get r ''fighter_2'');
          tln1 = (if n1 \<noteq> [] then timeline_append n1 (d, F1, i) tln else tln)
      in if n2 \<noteq> [] then timeline_append n2 (d, F2, i) tln1 else tln1)"

fun build_timeline :: "row list \<Rightarrow> nat \<Rightarrow> timeline \<Rightarrow> timeline" where
  "build_timeline [] i tln = tln"
| "build_timeline (r # rs) i tln = build_timeline rs (Suc i) (timeline_row i r tln)"

definition write_counters :: "side \<Rightarrow> nat \<Rightarrow> nat \<Rightarrow> row \<Rightarrow> row" where
  "write_counters sd wins losses r =
     (if sd = F1 then
        AList.update ''fighter_1_ufcloss'' (PStr (str_nat losses))
          (AList.update ''fighter_1_ufcwins'' (PStr (str_nat wins)) r)
      else
        AList.update ''fighter_2_ufcloss'' (PStr (str_nat losses))
          (AList.update ''fighter_2_ufcwins'' (PStr (str_nat wins)) r))"

definition update_counters :: "side \<Rightarrow> row \<Rightarrow> nat \<times> nat \<Rightarrow> nat \<times> nat" where
  "update_counters sd r wl =
     (case wl of (wins, losses) \<Rightarrow>
        (let res = lower (strip (or_empty (get r ''result''))) in
         if startswith res ''win'' then
           (if sd = F1 then (wins + 1, losses) else (wins, losses + 1))
         else if startswith res ''loss'' \<or> startswith res ''l'' then
           (if sd = F1 then (wins, losses + 1) else (wins + 1, losses))
         else (wins, losses)))"

fun walk :: "item list \<Rightarrow> nat \<times> nat \<Rightarrow> row list \<Rightarrow> row list" where
  "walk [] wl rows = rows"
| "walk ((d, sd, i) # items) wl rows =
     (let r = write_counters sd (fst wl) (snd wl) (rows ! i)
      in walk items (update_counters sd r wl) (rows[i := r]))"

definition compute_ufc_counters :: "row list \<Rightarrow> row list" where
  "compute_ufc_counters rows =
     fold (\<lambda>(fighter, items). walk (sort_key fst items) (0, 0)) (build_timeline rows 0 []) rows"

section \<open>Activity flags\<close>

text \<open>
  \<^verbatim>\<open>
  def apply_active_flags(rows, years=3):
      last_seen = {}
      for r in rows:
          d = parse_date_to_obj(r.get('event_date', ''))
          if not d:
              continue
          for side in ('fighter_1', 'fighter_2'):
              n = norm_name(r.get(side, ''))
              if not n:
                  continue
              if (n not in last_seen) or (d > last_seen[n]):
                  last_seen[n] = d
      today = date.today()
      cutoff_days = int(365.25 * years)
      for r in rows:
          for side in ('fighter_1', 'fighter_2'):
              n = norm_name(r.get(side, ''))
              active = False
              last = last_seen.get(n)
              if last:
                  active = (today - last).days <= cutoff_days
              r[f'{side}_active'] = 'TRUE' if active else 'FALSE'
  \<close>
  \<open>date.today()\<close> is an input of the model. The float \<open>365.25\<close> is \<open>1461 / 4\<close> exactly, its
  product with an integer of ordinary size is exact, and \<open>int\<close> truncates towards zero.
\<close>

definition cutoff_days :: "int \<Rightarrow> int" where
  "cutoff_days years =
     (if 0 \<le> years then (1461 * years) div 4 else - ((1461 * (- years)) div 4))"

definition see :: "string \<Rightarrow> date \<Rightarrow> (string \<times> date) list \<Rightarrow> (string \<times> date) list" where
  "see n d last_seen =
     (if n = [] then last_seen
      else (case map_of last_seen n of
              None \<Rightarrow> AList.update n d last_seen
            | Some lastd \<Rightarrow> if d > lastd then AList.update n d last_seen else last_seen))"

definition last_seen_row :: "row \<Rightarrow> (string \<times> date) list \<Rightarrow> (string \<times> date) list" where
  "last_seen_row r last_seen =
     (case parse_date_to_obj (get r ''event_date'') of
        None \<Rightarrow> last_seen
      | Some d \<Rightarrow>
          see (norm_name (get r ''fighter_2'')) d (see (norm_name (get r ''fighter_1'')) d last_seen))"

definition flag_side ::
    "date \<Rightarrow> int \<Rightarrow> (string \<times> date) list \<Rightarrow> string \<Rightarrow> row \<Rightarrow> row" where
  "flag_side today cutoff last_seen sd r =
     (let n = norm_name (get r sd);
          active = (case map_of last_seen n of
                      None \<Rightarrow> False
                    | Some lastd \<Rightarrow> toordinal today - toordinal lastd \<le> cutoff)
      in AList.update (sd @ ''_active'') (PStr (if active then ''TRUE'' else ''FALSE'')) r)"

definition apply_active_flags :: "date \<Rightarrow> int \<Rightarrow> row list \<Rightarrow> row list" where
  "apply_active_flags today years rows =
     (let last_seen = fold last_seen_row rows [];
          cutoff = cutoff_days years
      in map (\<lambda>r. flag_side today cutoff last_seen ''fighter_2''
                    (flag_side today cutoff last_seen ''fighter_1'' r)) rows)"

section \<open>Notions for stating the claims\<close>

text \<open>
  The dates of the rows with a parseable date in which the name \<open>n\<close> appears on either
  side, in the order of the rows; and the later of a date and an optional earlier one.
\<close>

abbreviation dated_appearances :: "string \<Rightarrow> row list \<Rightarrow> date list" where
  "dated_appearances n rows \<equiv>
     concat (map (\<lambda>r. case parse_date_to_obj (get r ''event_date'') of
                         None \<Rightarrow> []
                       | Some d \<Rightarrow>
                           if norm_name (get r ''fighter_1'') = n \<or> norm_name (get r ''fighter_2'') = n
                           then [d] else []) rows)"

abbreviation later :: "date \<Rightarrow> date option \<Rightarrow> date option" where
  "later d acc \<equiv> Some (case acc of None \<Rightarrow> d | Some l \<Rightarrow> max l d)"

text \<open>
  For the tallies: the field names of a side; the tally reached from \<open>wl\<close> over a list of
  items, each updating by its own row's result; the normalised name on a side of row \<open>i\<close>;
  and the walk over every competitor's timeline in turn. \<open>timeline_ok\<close> and
  \<open>timeline_full\<close> are the invariants of \<open>build_timeline\<close> used in the proofs: over the
  sides \<open>U\<close> of the rows read so far, every competitor's list holds each of its own
  appearances once, tagged with the row's date, and holds nothing else.
\<close>

abbreviation side_key :: "side \<Rightarrow> string" where
  "side_key sd \<equiv> (if sd = F1 then ''fighter_1'' else ''fighter_2'')"

abbreviation wins_key :: "side \<Rightarrow> string" where
  "wins_key sd \<equiv> (if sd = F1 then ''fighter_1_ufcwins'' else ''fighter_2_ufcwins'')"

abbreviation loss_key :: "side \<Rightarrow> string" where
  "loss_key sd \<equiv> (if sd = F1 then ''fighter_1_ufcloss'' else ''fighter_2_ufcloss'')"

abbreviation tally_over :: "row list \<Rightarrow> item list \<Rightarrow> nat \<times> nat \<Rightarrow> nat \<times> nat" where
  "tally_over rows its wl \<equiv> fold (\<lambda>(d, sd, i). update_counters sd (rows ! i)) its wl"

abbreviation name_at :: "row list \<Rightarrow> side \<Rightarrow> nat \<Rightarrow> string" where
  "name_at rows sd i \<equiv> norm_name (get (rows ! i) (side_key sd))"

definition timeline_ok :: "row list \<Rightarrow> (side \<times> nat) set \<Rightarrow> timeline \<Rightarrow> bool" where
  "timeline_ok rows U tln =
     (distinct (map fst tln) \<and>
      (\<forall>n items. map_of tln n = Some items \<longrightarrow>
         distinct (map snd items) \<and>
         (\<forall>(d, sd, i) \<in> set items. (sd, i) \<in> U \<and> name_at rows sd i = n)))"

abbreviation walk_all :: "timeline \<Rightarrow> row list \<Rightarrow> row list" where
  "walk_all tls rows \<equiv> fold (\<lambda>(fighter, items). walk (sort_key fst items) (0, 0)) tls rows"

definition timeline_full :: "row list \<Rightarrow> (side \<times> nat) set \<Rightarrow> timeline \<Rightarrow> bool" where
  "timeline_full rows U tln =
     ((\<forall>n items. map_of tln n = Some items \<longrightarrow>
         n \<noteq> [] \<and> (\<forall>(d, sd, i) \<in> set items. d = event_date_or_min (rows ! i))) \<and>
      (\<forall>(sd, i) \<in> U. name_at rows sd i \<noteq> [] \<longrightarrow>
         (\<exists>items. map_of tln (name_at rows sd i) = Some items
            \<and> (event_date_or_min (rows ! i), sd, i) \<in> set items)))"

section \<open>Properties of the merge\<close>

lemma map_of_merge_step_other:
  "k \<noteq> fst kv \<Longrightarrow> map_of (merge_step kv merged) k = map_of merged k"
  by (cases kv) (auto simp: merge_step_def Let_def update_conv' split: pyval.splits)

lemma map_of_merge_step_same:
  "map_of (merge_step (k, v) merged) k =
     (case v of
        PNone \<Rightarrow> map_of merged k
      | PStr s \<Rightarrow>
          if (strip s = [] \<or> lower (strip s) = ''unknown'') \<and>
             (case map_of merged k of None \<Rightarrow> False | Some ov \<Rightarrow> strip (str ov) \<noteq> [])
          then map_of merged k
          else Some (PStr (strip s)))"
  by (auto simp: merge_step_def Let_def update_conv' split: pyval.splits)

lemma map_of_fold_merge_step:
  "distinct (map fst new) \<Longrightarrow>
   map_of (fold merge_step new merged) k =
     (case map_of new k of
        None \<Rightarrow> map_of merged k
      | Some PNone \<Rightarrow> map_of merged k
      | Some (PStr s) \<Rightarrow>
          if (strip s = [] \<or> lower (strip s) = ''unknown'') \<and>
             (case map_of merged k of None \<Rightarrow> False | Some ov \<Rightarrow> strip (str ov) \<noteq> [])
          then map_of merged k
          else Some (PStr (strip s)))"
proof (induction new arbitrary: merged)
  case Nil
  then show ?case by simp
next
  case (Cons kv new)
  obtain k' v where kv: "kv = (k', v)" by (cases kv)
  from Cons.prems have d: "distinct (map fst new)" and notin: "k' \<notin> fst ` set new"
    by (auto simp: kv)
  have step: "map_of (fold merge_step (kv # new) merged) k =
      (case map_of new k of
         None \<Rightarrow> map_of (merge_step kv merged) k
       | Some PNone \<Rightarrow> map_of (merge_step kv merged) k
       | Some (PStr s) \<Rightarrow>
           if (strip s = [] \<or> lower (strip s) = ''unknown'') \<and>
              (case map_of (merge_step kv merged) k of None \<Rightarrow> False
               | Some ov \<Rightarrow> strip (str ov) \<noteq> [])
           then map_of (merge_step kv merged) k
           else Some (PStr (strip s)))"
    using Cons.IH [OF d, of "merge_step kv merged"] by simp
  show ?case
  proof (cases "k = k'")
    case True
    with notin have none: "map_of new k = None"
      by (simp add: map_of_eq_None_iff)
    have "map_of (fold merge_step (kv # new) merged) k = map_of (merge_step (k, v) merged) k"
      using step none True by (simp add: kv)
    also have "\<dots> = (case map_of (kv # new) k of
        None \<Rightarrow> map_of merged k
      | Some PNone \<Rightarrow> map_of merged k
      | Some (PStr s) \<Rightarrow>
          if (strip s = [] \<or> lower (strip s) = ''unknown'') \<and>
             (case map_of merged k of None \<Rightarrow> False | Some ov \<Rightarrow> strip (str ov) \<noteq> [])
          then map_of merged k
          else Some (PStr (strip s)))"
      unfolding map_of_merge_step_same using True by (simp add: kv split: pyval.splits)
    finally show ?thesis .
  next
    case False
    then have same: "map_of (merge_step kv merged) k = map_of merged k"
      by (simp add: kv map_of_merge_step_other)
    from False have "map_of (kv # new) k = map_of new k"
      by (simp add: kv)
    then show ?thesis by (simp only: step same)
  qed
qed

lemma map_of_merge_rows:
  assumes "distinct (map fst new_row)"
  shows "map_of (merge_rows old_row new_row) k =
     (case map_of new_row k of
        None \<Rightarrow> map_of old_row k
      | Some PNone \<Rightarrow> map_of old_row k
      | Some (PStr s) \<Rightarrow>
          if (strip s = [] \<or> lower (strip s) = ''unknown'') \<and>
             (case map_of old_row k of None \<Rightarrow> False | Some ov \<Rightarrow> strip (str ov) \<noteq> [])
          then map_of old_row k
          else Some (PStr (strip s)))"
proof -
  have "(if old_row \<noteq> [] then old_row else []) = old_row" by simp
  then have "merge_rows old_row new_row = fold merge_step new_row old_row"
    by (simp only: merge_rows_def)
  then show ?thesis
    by (simp only: map_of_fold_merge_step [OF assms])
qed

lemma dropWhile_strip: "dropWhile is_space (strip s) = strip s"
proof (cases "strip s = []")
  case True
  then show ?thesis by simp
next
  case False
  define t where "t = dropWhile is_space s"
  have st: "strip s = rev (dropWhile is_space (rev t))"
    by (simp add: strip_def t_def)
  from False st have tne: "t \<noteq> []" by auto
  then have nsp: "\<not> is_space (hd t)"
    unfolding t_def by (rule hd_dropWhile)
  have "\<exists>zs. t = strip s @ zs"
    by (metis st takeWhile_dropWhile_id rev_append rev_rev_ident)
  then obtain zs where "t = strip s @ zs" ..
  with False have "hd (strip s) = hd t" by simp
  with nsp show ?thesis
    by (simp add: dropWhile_eq_self_iff)
qed

lemma strip_strip: "strip (strip s) = strip s"
proof -
  have "dropWhile is_space (rev (strip s)) = rev (strip s)"
    by (simp add: strip_def dropWhile_idem)
  then show ?thesis
    by (simp add: strip_def [of "strip s"] dropWhile_strip)
qed

section \<open>Claims about the merge\<close>

text \<open>
  Claim C10. For an existing row \<open>e\<close>, an incoming row \<open>i\<close> and a field \<open>f\<close>: when \<open>i[f]\<close> is
  a string that is empty after trimming or is the sentinel "unknown" in any letter case,
  and \<open>f\<close> is absent from \<open>e\<close> or \<open>e[f]\<close> is empty after trimming, then \<open>merge_rows(e, i)[f]\<close>
  is the trimmed \<open>i[f]\<close>. A blank or "Unknown" incoming value is written whenever the
  existing side has nothing, so a merged row can hold the literal value "Unknown".
\<close>

theorem merge_rows_writes_blank:
  assumes "distinct (map fst i)"
    and "map_of i f = Some (PStr s)"
    and "strip s = [] \<or> lower (strip s) = ''unknown''"
    and "map_of e f = None \<or> (\<exists>ev. map_of e f = Some ev \<and> strip (str ev) = [])"
  shows "map_of (merge_rows e i) f = Some (PStr (strip s))"
  using assms(2-4) by (auto simp: map_of_merge_rows [OF assms(1)])

theorem merge_rows_writes_blank_witness:
  "distinct (map fst [(''fighter_1_reach'', PStr '' Unknown '')])
   \<and> map_of [(''fighter_1_reach'', PStr '' Unknown '')] ''fighter_1_reach'' = Some (PStr '' Unknown '')
   \<and> lower (strip '' Unknown '') = ''unknown''
   \<and> map_of [(''fighter_1_reach'', PStr ''  '')] ''fighter_1_reach'' = Some (PStr ''  '')
   \<and> strip (str (PStr ''  '')) = []
   \<and> map_of (merge_rows [(''fighter_1_reach'', PStr ''  '')] [(''fighter_1_reach'', PStr '' Unknown '')])
        ''fighter_1_reach'' = Some (PStr ''Unknown'')"
proof -
  have s: "strip '' Unknown '' = ''Unknown''" by (simp add: strip_def is_space_def)
  have l: "lower ''Unknown'' = ''unknown''" by (simp add: lower_def lower_char_def)
  have e: "strip ''  '' = []" by (simp add: strip_def is_space_def)
  show ?thesis
    using merge_rows_writes_blank [of "[(''fighter_1_reach'', PStr '' Unknown '')]" "''fighter_1_reach''"
        "'' Unknown ''" "[(''fighter_1_reach'', PStr ''  '')]"]
    by (simp add: s l e)
qed

text \<open>
  Claim C5. The merge never destroys populated data. "Blank" is what the merge itself
  tests: a value that is \<open>None\<close>, empty after trimming, or "unknown" in any letter case.
  For rows \<open>a\<close>, \<open>b\<close> and a field \<open>f\<close> where \<open>a[f]\<close> is a string that is not empty after
  trimming: if \<open>b[f]\<close> is blank then \<open>merge_rows(a, b)[f]\<close> is \<open>a[f]\<close>; and if \<open>a[f]\<close> is not
  blank then, whatever \<open>b\<close> is, \<open>merge_rows(a, b)[f]\<close> is a string that is not blank.
\<close>

theorem merge_rows_keeps_populated:
  assumes "distinct (map fst b)"
    and "map_of a f = Some (PStr s)"
    and "strip s \<noteq> []"
  shows "((map_of b f = Some PNone \<or>
           (\<exists>t. map_of b f = Some (PStr t) \<and> (strip t = [] \<or> lower (strip t) = ''unknown'')))
          \<longrightarrow> map_of (merge_rows a b) f = Some (PStr s))
       \<and> (lower (strip s) \<noteq> ''unknown'' \<longrightarrow>
            (\<exists>t. map_of (merge_rows a b) f = Some (PStr t) \<and> strip t \<noteq> []
                 \<and> lower (strip t) \<noteq> ''unknown''))"
  using assms(2,3)
  by (auto simp: map_of_merge_rows [OF assms(1)] strip_strip split: option.splits pyval.splits)

theorem merge_rows_keeps_populated_witness:
  "distinct (map fst [(''fighter_1_stance'', PStr ''unknown'')])
   \<and> map_of [(''fighter_1_stance'', PStr ''Orthodox'')] ''fighter_1_stance'' = Some (PStr ''Orthodox'')
   \<and> strip ''Orthodox'' \<noteq> []
   \<and> map_of [(''fighter_1_stance'', PStr ''unknown'')] ''fighter_1_stance'' = Some (PStr ''unknown'')
   \<and> lower (strip ''unknown'') = ''unknown''
   \<and> lower (strip ''Orthodox'') \<noteq> ''unknown''
   \<and> map_of (merge_rows [(''fighter_1_stance'', PStr ''Orthodox'')] [(''fighter_1_stance'', PStr ''unknown'')])
        ''fighter_1_stance'' = Some (PStr ''Orthodox'')"
proof -
  have s: "strip ''Orthodox'' = ''Orthodox''" by (simp add: strip_def is_space_def)
  have u: "strip ''unknown'' = ''unknown''" by (simp add: strip_def is_space_def)
  have l: "lower ''unknown'' = ''unknown''" "lower ''Orthodox'' = ''orthodox''"
    by (simp_all add: lower_def lower_char_def)
  show ?thesis
    using merge_rows_keeps_populated [of "[(''fighter_1_stance'', PStr ''unknown'')]"
        "[(''fighter_1_stance'', PStr ''Orthodox'')]" "''fighter_1_stance''" "''Orthodox''"]
    by (simp add: s u l)
qed

lemma merge_rows_self_field:
  assumes "distinct (map fst r)" and "map_of r k = Some (PStr s)"
  shows "map_of (merge_rows r r) k =
     (if lower (strip s) = ''unknown'' then Some (PStr s) else Some (PStr (strip s)))"
proof (cases "lower (strip s) = ''unknown''")
  case True
  then have "strip s \<noteq> []" by (auto simp: lower_def)
  with True assms(2) show ?thesis
    by (simp add: map_of_merge_rows [OF assms(1)])
next
  case False
  with assms(2) show ?thesis
    by (auto simp: map_of_merge_rows [OF assms(1)])
qed

text \<open>
  Claim C4, as the code has it. Merging the same incoming row a second time changes
  nothing: \<open>merge_rows(merge_rows(a, b), b) == merge_rows(a, b)\<close> for all rows \<open>a\<close>, \<open>b\<close>. And
  \<open>merge_rows(r, r) == r\<close> holds exactly for the rows \<open>r\<close> in which every string value is
  already trimmed or is, once trimmed, "unknown" in any letter case: the merge stores
  the trimmed incoming value, except that an incoming "unknown" leaves a populated field
  as it is.
\<close>

theorem merge_rows_idempotent:
  assumes "distinct (map fst b)"
    and "distinct (map fst r)"
  shows "map_of (merge_rows (merge_rows a b) b) = map_of (merge_rows a b)
       \<and> (map_of (merge_rows r r) = map_of r \<longleftrightarrow>
            (\<forall>(k, v) \<in> set r. \<forall>s. v = PStr s \<longrightarrow> strip s = s \<or> lower (strip s) = ''unknown''))"
proof
  show "map_of (merge_rows (merge_rows a b) b) = map_of (merge_rows a b)"
  proof
    fix k
    show "map_of (merge_rows (merge_rows a b) b) k = map_of (merge_rows a b) k"
      unfolding map_of_merge_rows [OF assms(1), of "merge_rows a b"]
      by (auto simp: map_of_merge_rows [OF assms(1)] split: option.splits pyval.splits)
  qed
  show "map_of (merge_rows r r) = map_of r \<longleftrightarrow>
      (\<forall>(k, v) \<in> set r. \<forall>s. v = PStr s \<longrightarrow> strip s = s \<or> lower (strip s) = ''unknown'')"
  proof
    assume eq: "map_of (merge_rows r r) = map_of r"
    show "\<forall>(k, v) \<in> set r. \<forall>s. v = PStr s \<longrightarrow> strip s = s \<or> lower (strip s) = ''unknown''"
    proof (clarify)
      fix k s
      assume mem: "(k, PStr s) \<in> set r" and nu: "lower (strip s) \<noteq> ''unknown''"
      from mem assms(2) have m: "map_of r k = Some (PStr s)" by simp
      from eq have "map_of (merge_rows r r) k = map_of r k" by simp
      with nu show "strip s = s"
        unfolding merge_rows_self_field [OF assms(2) m] m by simp
    qed
  next
    assume h: "\<forall>(k, v) \<in> set r. \<forall>s. v = PStr s \<longrightarrow> strip s = s \<or> lower (strip s) = ''unknown''"
    show "map_of (merge_rows r r) = map_of r"
    proof
      fix k
      show "map_of (merge_rows r r) k = map_of r k"
      proof (cases "map_of r k")
        case None
        then show ?thesis by (simp add: map_of_merge_rows [OF assms(2)])
      next
        case (Some v)
        show ?thesis
        proof (cases v)
          case PNone
          with Some show ?thesis by (simp add: map_of_merge_rows [OF assms(2)])
        next
          case (PStr s)
          with Some have m: "map_of r k = Some (PStr s)" by simp
          then have "(k, PStr s) \<in> set r" by (rule map_of_SomeD)
          with h have "strip s = s \<or> lower (strip s) = ''unknown''" by fast
          then show ?thesis
            unfolding merge_rows_self_field [OF assms(2) m] m by auto
        qed
      qed
    qed
  qed
qed

theorem merge_rows_idempotent_witness:
  "map_of (merge_rows (merge_rows [(''round'', PStr ''2'')]
                [(''method_main'', PStr ''KO/TKO ''), (''round'', PStr ''unknown'')])
                [(''method_main'', PStr ''KO/TKO ''), (''round'', PStr ''unknown'')])
      = map_of (merge_rows [(''round'', PStr ''2'')]
                [(''method_main'', PStr ''KO/TKO ''), (''round'', PStr ''unknown'')])
   \<and> map_of (merge_rows [(''method_main'', PStr ''KO/TKO''), (''fighter_1_reach'', PStr '' Unknown ''),
                          (''round'', PNone)]
                [(''method_main'', PStr ''KO/TKO''), (''fighter_1_reach'', PStr '' Unknown ''),
                 (''round'', PNone)])
      = map_of [(''method_main'', PStr ''KO/TKO''), (''fighter_1_reach'', PStr '' Unknown ''),
                (''round'', PNone)]
   \<and> map_of (merge_rows [(''method_main'', PStr ''KO/TKO '')] [(''method_main'', PStr ''KO/TKO '')])
      \<noteq> map_of [(''method_main'', PStr ''KO/TKO '')]"
proof -
  have s: "strip ''KO/TKO'' = ''KO/TKO''" "strip '' Unknown '' = ''Unknown''"
    "strip ''KO/TKO '' = ''KO/TKO''"
    by (simp_all add: strip_def is_space_def)
  have l: "lower ''Unknown'' = ''unknown''" "lower ''KO/TKO'' = ''ko/tko''"
    by (simp_all add: lower_def lower_char_def)
  have w1: "map_of (merge_rows (merge_rows [(''round'', PStr ''2'')]
                [(''method_main'', PStr ''KO/TKO ''), (''round'', PStr ''unknown'')])
                [(''method_main'', PStr ''KO/TKO ''), (''round'', PStr ''unknown'')])
      = map_of (merge_rows [(''round'', PStr ''2'')]
                [(''method_main'', PStr ''KO/TKO ''), (''round'', PStr ''unknown'')])"
    using merge_rows_idempotent [of "[(''method_main'', PStr ''KO/TKO ''), (''round'', PStr ''unknown'')]"
        "[]" "[(''round'', PStr ''2'')]"]
    by simp
  have w2: "map_of (merge_rows [(''method_main'', PStr ''KO/TKO''), (''fighter_1_reach'', PStr '' Unknown ''),
                          (''round'', PNone)]
                [(''method_main'', PStr ''KO/TKO''), (''fighter_1_reach'', PStr '' Unknown ''),
                 (''round'', PNone)])
      = map_of [(''method_main'', PStr ''KO/TKO''), (''fighter_1_reach'', PStr '' Unknown ''),
                (''round'', PNone)]"
    using merge_rows_idempotent [of "[]" "[(''method_main'', PStr ''KO/TKO''), (''fighter_1_reach'', PStr '' Unknown ''),
                (''round'', PNone)]"]
    by (simp add: s l)
  have w3: "map_of (merge_rows [(''method_main'', PStr ''KO/TKO '')] [(''method_main'', PStr ''KO/TKO '')])
      \<noteq> map_of [(''method_main'', PStr ''KO/TKO '')]"
    using merge_rows_idempotent [of "[]" "[(''method_main'', PStr ''KO/TKO '')]"]
    by (simp add: s l)
  from w1 w2 w3 show ?thesis by simp
qed


text \<open>
  Claim C4 as the specification states it, \<open>merge_rows(r, r) == r\<close> for every row, fails
  for a row read from a file whose cell ends in a space: the merge stores the trimmed
  text.
\<close>

theorem merge_rows_self_counterexample:
  "map_of (merge_rows [(''method_main'', PStr ''KO/TKO '')] [(''method_main'', PStr ''KO/TKO '')])
     \<noteq> map_of [(''method_main'', PStr ''KO/TKO '')]"
proof
  assume "map_of (merge_rows [(''method_main'', PStr ''KO/TKO '')] [(''method_main'', PStr ''KO/TKO '')])
     = map_of [(''method_main'', PStr ''KO/TKO '')]"
  then have "map_of (merge_rows [(''method_main'', PStr ''KO/TKO '')] [(''method_main'', PStr ''KO/TKO '')]) ''method_main''
     = map_of [(''method_main'', PStr ''KO/TKO '')] ''method_main''" by simp
  then show False
    by (simp add: merge_rows_def merge_step_def strip_def is_space_def lower_def lower_char_def)
qed

section \<open>Claims about the merge key\<close>

text \<open>
  Claim C6. The merge key does not depend on the order of the two names: for every date
  string \<open>d\<close> and all names \<open>x\<close>, \<open>y\<close>, \<open>legacy_key(d, x, y) == legacy_key(d, y, x)\<close>.
\<close>

theorem legacy_key_commute: "legacy_key d x y = legacy_key d y x"
  by (auto simp: legacy_key_def Let_def)

theorem legacy_key_commute_witness:
  "legacy_key ''Aug 23, 2025'' ''Jon  Jones'' ''Alex PEREIRA'' = ''2025-08-23|alex pereira|jon jones''
   \<and> legacy_key ''Aug 23, 2025'' ''Alex PEREIRA'' ''Jon  Jones'' = ''2025-08-23|alex pereira|jon jones''"
proof -
  have "legacy_key ''Aug 23, 2025'' ''Jon  Jones'' ''Alex PEREIRA'' = ''2025-08-23|alex pereira|jon jones''"
    by code_simp
  then show ?thesis
    using legacy_key_commute [of "''Aug 23, 2025''" "''Jon  Jones''" "''Alex PEREIRA''"] by simp
qed

lemma dict_eq_iff: "dict_eq a b \<longleftrightarrow> map_of a = map_of b"
proof
  assume h: "dict_eq a b"
  show "map_of a = map_of b"
  proof
    fix k
    show "map_of a k = map_of b k"
    proof (cases "k \<in> set (map fst a @ map fst b)")
      case True
      with h show ?thesis by (auto simp: dict_eq_def list_all_iff)
    next
      case False
      then have "map_of a k = None" "map_of b k = None"
        by (auto simp: map_of_eq_None_iff)
      then show ?thesis by simp
    qed
  qed
next
  assume "map_of a = map_of b"
  then show "dict_eq a b" by (simp add: dict_eq_def list_all_iff)
qed

lemma parse_long: "parse_date_to_obj (PStr ''August 23, 2025'') = Some (2025, 8, 23)"
  by code_simp

lemma parse_short: "parse_date_to_obj (PStr ''2025-08-23'') = Some (2025, 8, 23)"
  by code_simp

lemma iso_2025_08_23: "to_iso (Some (2025, 8, 23)) = ''2025-08-23''"
  by code_simp

text \<open>
  Claim C7. The date strings "August 23, 2025" and "2025-08-23" parse to the same date,
  so for any pairing, in either order of the names, the two observations have the same
  merge key; and handling the second observation against a store that holds the first
  leaves one record under that key: the stored row when existing rows are not refreshed,
  the merge of the stored and the observed row when they are.
\<close>

theorem same_date_same_key:
  "parse_date_to_obj (PStr ''August 23, 2025'') = Some (2025, 8, 23)
   \<and> parse_date_to_obj (PStr ''2025-08-23'') = Some (2025, 8, 23)
   \<and> legacy_key ''August 23, 2025'' f1 f2 = legacy_key ''2025-08-23'' f1 f2
   \<and> legacy_key ''August 23, 2025'' f1 f2 = legacy_key ''2025-08-23'' f2 f1
   \<and> upsert False [(legacy_key ''August 23, 2025'' f1 f2, stored)]
         (legacy_key ''2025-08-23'' f1 f2) observed
       = [(legacy_key ''August 23, 2025'' f1 f2, stored)]
   \<and> (\<exists>merged. upsert True [(legacy_key ''August 23, 2025'' f1 f2, stored)]
                  (legacy_key ''2025-08-23'' f1 f2) observed
                = [(legacy_key ''August 23, 2025'' f1 f2, merged)]
              \<and> map_of merged = map_of (merge_rows stored observed))"
proof -
  have k: "legacy_key ''August 23, 2025'' x y = legacy_key ''2025-08-23'' x y" for x y
    by (simp add: legacy_key_def parse_long parse_short)
  have sw: "legacy_key ''2025-08-23'' f1 f2 = legacy_key ''2025-08-23'' f2 f1"
    by (auto simp: legacy_key_def Let_def)
  have u1: "upsert False [(legacy_key ''August 23, 2025'' f1 f2, stored)]
         (legacy_key ''2025-08-23'' f1 f2) observed
       = [(legacy_key ''August 23, 2025'' f1 f2, stored)]"
    by (simp add: upsert_def k)
  have u2: "\<exists>merged. upsert True [(legacy_key ''August 23, 2025'' f1 f2, stored)]
                  (legacy_key ''2025-08-23'' f1 f2) observed
                = [(legacy_key ''August 23, 2025'' f1 f2, merged)]
              \<and> map_of merged = map_of (merge_rows stored observed)"
    by (auto simp: upsert_def k Let_def dict_eq_iff)
  from parse_long parse_short k [of f1 f2] sw u1 u2 show ?thesis by simp
qed

theorem same_date_same_key_witness:
  "parse_date_to_obj (PStr ''August 23, 2025'') = Some (2025, 8, 23)
   \<and> parse_date_to_obj (PStr ''2025-08-23'') = Some (2025, 8, 23)
   \<and> legacy_key ''August 23, 2025'' ''Jon Jones'' ''Alex Pereira''
       = legacy_key ''2025-08-23'' ''Jon Jones'' ''Alex Pereira''
   \<and> legacy_key ''August 23, 2025'' ''Jon Jones'' ''Alex Pereira''
       = legacy_key ''2025-08-23'' ''Alex Pereira'' ''Jon Jones''
   \<and> upsert False [(legacy_key ''August 23, 2025'' ''Jon Jones'' ''Alex Pereira'',
                      [(''round'', PStr ''3'')])]
         (legacy_key ''2025-08-23'' ''Jon Jones'' ''Alex Pereira'') [(''time'', PStr ''4:29'')]
       = [(legacy_key ''August 23, 2025'' ''Jon Jones'' ''Alex Pereira'', [(''round'', PStr ''3'')])]
   \<and> (\<exists>merged. upsert True [(legacy_key ''August 23, 2025'' ''Jon Jones'' ''Alex Pereira'',
                               [(''round'', PStr ''3'')])]
                  (legacy_key ''2025-08-23'' ''Jon Jones'' ''Alex Pereira'') [(''time'', PStr ''4:29'')]
                = [(legacy_key ''August 23, 2025'' ''Jon Jones'' ''Alex Pereira'', merged)]
              \<and> map_of merged = map_of (merge_rows [(''round'', PStr ''3'')] [(''time'', PStr ''4:29'')]))"
  by (rule same_date_same_key [of "''Jon Jones''" "''Alex Pereira''" "[(''round'', PStr ''3'')]"
        "[(''time'', PStr ''4:29'')]"])

section \<open>Claims about the running tallies\<close>

lemma get_write_counters_result:
  "get (write_counters sd w l r) ''result'' = get r ''result''"
  by (simp add: get_def write_counters_def update_conv')

lemma update_counters_cong:
  "get r ''result'' = get r' ''result'' \<Longrightarrow> update_counters sd r wl = update_counters sd r' wl"
  by (simp add: update_counters_def)

lemma startswith_loss_l: "startswith s ''loss'' \<Longrightarrow> startswith s ''l''"
  by (cases s) simp_all

text \<open>
  Claim C3, as the code has it. The result is read relative to side A, after trimming
  and lower-casing. A result that then begins with "win" adds one to the wins of the
  competitor on side A and one to the losses of the competitor on side B. Otherwise a
  result that then begins with the letter "l", which covers "loss" and a bare "l", adds
  one to the losses on side A and one to the wins on side B. Every other value (draw,
  no-contest, empty, null, anything else not beginning with "l") leaves both counts as
  they are. The walk hands the counts so updated to the next record of the competitor.
\<close>

theorem update_counters_by_result:
  assumes "res = lower (strip (or_empty (get (rows ! i) ''result'')))"
  shows "(startswith res ''win'' \<longrightarrow>
            update_counters F1 (rows ! i) (w, l) = (w + 1, l)
          \<and> update_counters F2 (rows ! i) (w, l) = (w, l + 1))
       \<and> (\<not> startswith res ''win'' \<and> startswith res ''l'' \<longrightarrow>
            update_counters F1 (rows ! i) (w, l) = (w, l + 1)
          \<and> update_counters F2 (rows ! i) (w, l) = (w + 1, l))
       \<and> (\<not> startswith res ''win'' \<and> \<not> startswith res ''l'' \<longrightarrow>
            update_counters F1 (rows ! i) (w, l) = (w, l)
          \<and> update_counters F2 (rows ! i) (w, l) = (w, l))
       \<and> walk ((d, sd, i) # items) (w, l) rows
           = walk items (update_counters sd (rows ! i) (w, l))
               (rows[i := write_counters sd w l (rows ! i)])"
proof -
  have "update_counters sd (write_counters sd w l (rows ! i)) (w, l)
      = update_counters sd (rows ! i) (w, l)"
    by (rule update_counters_cong) (rule get_write_counters_result)
  then have "walk ((d, sd, i) # items) (w, l) rows
           = walk items (update_counters sd (rows ! i) (w, l))
               (rows[i := write_counters sd w l (rows ! i)])"
    by (simp add: Let_def)
  then show ?thesis
    using assms by (auto simp: update_counters_def Let_def dest: startswith_loss_l)
qed

theorem update_counters_by_result_witness:
  "update_counters F1 ([[(''result'', PStr '' WIN '')]] ! 0) (2, 1) = (2 + 1, 1)
   \<and> update_counters F2 ([[(''result'', PStr '' WIN '')]] ! 0) (2, 1) = (2, 1 + 1)"
proof -
  have "lower (strip (or_empty (get ([[(''result'', PStr '' WIN '')]] ! 0) ''result''))) = ''win''"
    by (simp add: get_def or_empty_def strip_def is_space_def lower_def lower_char_def)
  then show ?thesis
    using update_counters_by_result [of "''win''" "[[(''result'', PStr '' WIN '')]]" 0 2 1]
    by simp
qed

text \<open>
  Claim C3 as the specification states it fails for a result that is neither a win, nor
  begins with "loss", nor is the bare loss indicator: the code tests the first letter
  only, and "later" counts as a loss for side A and as a win for side B.
\<close>

theorem update_counters_counterexample:
  "update_counters F1 [(''result'', PStr ''later'')] (0, 0) = (0, 1)
   \<and> update_counters F2 [(''result'', PStr ''later'')] (0, 0) = (1, 0)"
  by (simp add: update_counters_def get_def or_empty_def strip_def is_space_def lower_def
      lower_char_def)

section \<open>Claims about choosing a value\<close>

lemma find_append_first:
  "\<forall>x \<in> set xs. \<not> P x \<Longrightarrow> P y \<Longrightarrow> find P (xs @ y # ys) = Some y"
  by (induction xs) auto

lemma find_none_all: "\<forall>x \<in> set xs. \<not> P x \<Longrightarrow> find P xs = None"
  by (simp add: find_None_iff)

lemma set_most_common: "set (most_common c) = set c"
  by (simp add: most_common_def)

lemma most_common_Nil: "most_common c = [] \<longleftrightarrow> c = []"
proof -
  have "length (most_common c) = length c" by (simp add: most_common_def)
  then show ?thesis by (metis length_0_conv)
qed

lemma distinct_most_common:
  "distinct (map fst c) \<Longrightarrow> distinct (map fst (most_common c))"
  by (simp add: distinct_map most_common_def)

lemma most_common_head:
  assumes "most_common c = (tv, tc) # rest" and "(v, n) \<in> set c"
  shows "n \<le> tc"
proof -
  from assms(1) have "rev (most_common c) = rev rest @ [(tv, tc)]" by simp
  then have "sort_key snd (rev c) = rev rest @ [(tv, tc)]"
    by (simp add: most_common_def)
  moreover have "sorted (map snd (sort_key snd (rev c)))" by simp
  ultimately have s: "sorted (map snd (rev rest) @ [tc])" by simp
  from assms(2) have "(v, n) \<in> set (most_common c)" by (simp add: set_most_common)
  with assms(1) have "(v, n) = (tv, tc) \<or> (v, n) \<in> set rest" by simp
  then show ?thesis
  proof
    assume "(v, n) = (tv, tc)" then show ?thesis by simp
  next
    assume "(v, n) \<in> set rest"
    then have "n \<in> set (map snd (rev rest))" by force
    with s show ?thesis by (auto simp: sorted_append)
  qed
qed

lemma distinct_singleton: "distinct xs \<Longrightarrow> set xs = {v} \<Longrightarrow> xs = [v]"
proof (cases xs)
  case Nil
  assume "set xs = {v}" with Nil show ?thesis by simp
next
  case (Cons a as)
  assume d: "distinct xs" and s: "set xs = {v}"
  from s Cons have a: "a = v" by auto
  from s Cons have "set as \<subseteq> {v}" by auto
  moreover from d Cons a have "v \<notin> set as" by simp
  ultimately have "as = []" by (cases as) auto
  with a Cons show ?thesis by simp
qed

text \<open>
  Claim C8. Mode with recency fallback, for a counter with distinct keys and a timeline in
  chronological order:
  \<^item> a value whose count is strictly greater than every other count is returned;
  \<^item> when two or more values share the highest count, the tied value whose last
    occurrence in the timeline is latest is returned (some tied value occurring in the
    timeline);
  \<^item> on an empty counter the most recent entry that is not blank is returned;
  \<^item> on an empty counter and a timeline with no entry that is not blank, the result
    is \<open>None\<close>.
\<close>

theorem choose_mode_cases:
  assumes "distinct (map fst c)"
  shows "((v, n) \<in> set c \<and> (\<forall>(v', n') \<in> set c. v' \<noteq> v \<longrightarrow> n' < n)
            \<longrightarrow> choose_mode_with_recent_fallback c timeline = Some v)
       \<and> ((v1, m) \<in> set c \<and> (v2, m) \<in> set c \<and> v1 \<noteq> v2 \<and> (\<forall>(v', n') \<in> set c. n' \<le> m)
            \<and> timeline = pre @ (d, v) # post \<and> (v, m) \<in> set c
            \<and> (\<forall>(d', v') \<in> set post. (v', m) \<notin> set c)
            \<longrightarrow> choose_mode_with_recent_fallback c timeline = Some v)
       \<and> (timeline = pre @ (d, v) # post \<and> \<not> is_blank (PStr v)
            \<and> (\<forall>(d', v') \<in> set post. is_blank (PStr v'))
            \<longrightarrow> choose_mode_with_recent_fallback [] timeline = Some v)
       \<and> ((\<forall>(d', v') \<in> set timeline. is_blank (PStr v'))
            \<longrightarrow> choose_mode_with_recent_fallback [] timeline = None)"
proof (intro conjI impI)
  assume h: "(v, n) \<in> set c \<and> (\<forall>(v', n') \<in> set c. v' \<noteq> v \<longrightarrow> n' < n)"
  then have cne: "c \<noteq> []" by auto
  then have "most_common c \<noteq> []" by (simp add: most_common_Nil)
  then obtain tv tc rest where mc: "most_common c = (tv, tc) # rest"
    by (cases "most_common c") auto
  have "(tv, tc) \<in> set (most_common c)" by (simp add: mc)
  then have top: "(tv, tc) \<in> set c" by (simp add: set_most_common)
  have le: "n \<le> tc" using most_common_head [OF mc] h by blast
  have tv: "tv = v"
  proof (rule ccontr)
    assume "tv \<noteq> v"
    with h top have "tc < n" by blast
    with le show False by simp
  qed
  have tc: "tc = n"
    using assms top h unfolding tv by (meson eq_key_imp_eq_value)
  have tc_hd: "snd (hd (most_common c)) = n" by (simp add: mc tc)
  define cands where
    "cands = map fst (filter (\<lambda>(val, cnt). cnt = snd (hd (most_common c))) (most_common c))"
  have "set cands = {x. (x, n) \<in> set c}"
    unfolding cands_def tc_hd by (force simp: set_most_common)
  moreover have "{x. (x, n) \<in> set c} = {v}"
    using h by fastforce
  ultimately have "set cands = {v}" by simp
  moreover have "distinct cands"
    unfolding cands_def using distinct_most_common [OF assms] by (rule distinct_map_filter)
  ultimately have "cands = [v]" by (simp add: distinct_singleton)
  then have "mode_or_tie c timeline = Some v"
    unfolding mode_or_tie_def Let_def cands_def [symmetric] by simp
  then show "choose_mode_with_recent_fallback c timeline = Some v"
    using cne by (simp add: choose_mode_with_recent_fallback_def)
next
  assume h: "(v1, m) \<in> set c \<and> (v2, m) \<in> set c \<and> v1 \<noteq> v2 \<and> (\<forall>(v', n') \<in> set c. n' \<le> m)
            \<and> timeline = pre @ (d, v) # post \<and> (v, m) \<in> set c
            \<and> (\<forall>(d', v') \<in> set post. (v', m) \<notin> set c)"
  then have cne: "c \<noteq> []" by auto
  then have "most_common c \<noteq> []" by (simp add: most_common_Nil)
  then obtain tv tc rest where mc: "most_common c = (tv, tc) # rest"
    by (cases "most_common c") auto
  have "(tv, tc) \<in> set (most_common c)" by (simp add: mc)
  then have top: "(tv, tc) \<in> set c" by (simp add: set_most_common)
  have "m \<le> tc" using most_common_head [OF mc] h by blast
  moreover have "tc \<le> m" using h top by blast
  ultimately have tc: "tc = m" by simp
  have tc_hd: "snd (hd (most_common c)) = m" by (simp add: mc tc)
  define cands where
    "cands = map fst (filter (\<lambda>(val, cnt). cnt = snd (hd (most_common c))) (most_common c))"
  have sc: "set cands = {x. (x, m) \<in> set c}"
    unfolding cands_def tc_hd by (force simp: set_most_common)
  have len: "length cands \<noteq> 1"
  proof
    assume "length cands = 1"
    then obtain x where "cands = [x]" by (cases cands) auto
    then have "set cands = {x}" by simp
    moreover have "v1 \<in> set cands" "v2 \<in> set cands" using h sc by auto
    ultimately have "v1 = v2" by simp
    with h show False by simp
  qed
  have "find (\<lambda>(d, val). val \<in> set cands) (rev post @ (d, v) # rev pre) = Some (d, v)"
    using h by (intro find_append_first) (auto simp: sc)
  then have "find (\<lambda>(d, val). val \<in> set cands) (rev timeline) = Some (d, v)"
    using h by simp
  then have "mode_or_tie c timeline = Some v"
    unfolding mode_or_tie_def Let_def cands_def [symmetric] using len by simp
  then show "choose_mode_with_recent_fallback c timeline = Some v"
    using cne by (simp add: choose_mode_with_recent_fallback_def)
next
  assume h: "timeline = pre @ (d, v) # post \<and> \<not> is_blank (PStr v)
            \<and> (\<forall>(d', v') \<in> set post. is_blank (PStr v'))"
  have "find (\<lambda>(d, val). \<not> is_blank (PStr val)) (rev post @ (d, v) # rev pre) = Some (d, v)"
    using h by (intro find_append_first) auto
  then show "choose_mode_with_recent_fallback [] timeline = Some v"
    using h by (simp add: choose_mode_with_recent_fallback_def)
next
  assume h: "\<forall>(d', v') \<in> set timeline. is_blank (PStr v')"
  then have "find (\<lambda>(d, val). \<not> is_blank (PStr val)) (rev timeline) = None"
    by (intro find_none_all) auto
  then show "choose_mode_with_recent_fallback [] timeline = None"
    by (simp add: choose_mode_with_recent_fallback_def)
qed


theorem choose_mode_cases_witness:
  "choose_mode_with_recent_fallback [(''Austin, Texas'', 2), (''Dallas, Texas'', 1)]
      [((2019, 3, 2), ''Dallas, Texas''), ((2020, 5, 9), ''Austin, Texas''),
       ((2021, 7, 10), ''Austin, Texas'')]
     = Some ''Austin, Texas''
   \<and> choose_mode_with_recent_fallback [(''Austin, Texas'', 1), (''Dallas, Texas'', 1)]
      [((2019, 3, 2), ''Dallas, Texas''), ((2020, 5, 9), ''Austin, Texas'')]
     = Some ''Austin, Texas''
   \<and> choose_mode_with_recent_fallback []
      [((2019, 3, 2), ''Dallas, Texas''), ((2020, 5, 9), ''Unknown'')]
     = Some ''Dallas, Texas''
   \<and> choose_mode_with_recent_fallback [] [((2020, 5, 9), ''N/A'')] = None"
proof -
  have b: "\<not> is_blank (PStr ''Dallas, Texas'')" "is_blank (PStr ''Unknown'')"
    "is_blank (PStr ''N/A'')"
    by code_simp+
  have c1: "choose_mode_with_recent_fallback [(''Austin, Texas'', 2), (''Dallas, Texas'', 1)]
      [((2019, 3, 2), ''Dallas, Texas''), ((2020, 5, 9), ''Austin, Texas''),
       ((2021, 7, 10), ''Austin, Texas'')]
     = Some ''Austin, Texas''"
    using choose_mode_cases [of "[(''Austin, Texas'', 2), (''Dallas, Texas'', 1)]"
        "''Austin, Texas''" 2] by simp
  have c2: "choose_mode_with_recent_fallback [(''Austin, Texas'', 1), (''Dallas, Texas'', 1)]
      [((2019, 3, 2), ''Dallas, Texas''), ((2020, 5, 9), ''Austin, Texas'')]
     = Some ''Austin, Texas''"
    using choose_mode_cases [of "[(''Austin, Texas'', 1), (''Dallas, Texas'', 1)]"
        "''Austin, Texas''" _ _ "''Austin, Texas''" 1 "''Dallas, Texas''"
        "[((2019, 3, 2), ''Dallas, Texas'')]" "(2020, 5, 9)" "[]"] by simp
  have c3: "choose_mode_with_recent_fallback []
      [((2019, 3, 2), ''Dallas, Texas''), ((2020, 5, 9), ''Unknown'')]
     = Some ''Dallas, Texas''"
    using choose_mode_cases [of "[]" "''Dallas, Texas''" _ _ _ _ _ "[]" "(2019, 3, 2)"
        "[((2020, 5, 9), ''Unknown'')]"] b by simp
  have c4: "choose_mode_with_recent_fallback [] [((2020, 5, 9), ''N/A'')] = None"
    using choose_mode_cases [of "[]" _ _ "[((2020, 5, 9), ''N/A'')]"] b by simp
  from c1 c2 c3 c4 show ?thesis by simp
qed

lemma scan_prev_sorted:
  "sorted (map fst tline) \<Longrightarrow>
   scan_prev tline target acc =
     (if filter (\<lambda>(d, v). d \<le> target \<and> \<not> is_blank (PStr v)) tline = [] then acc
      else Some (snd (last (filter (\<lambda>(d, v). d \<le> target \<and> \<not> is_blank (PStr v)) tline))))"
proof (induction tline arbitrary: acc)
  case Nil
  then show ?case by simp
next
  case (Cons x tline)
  obtain d v where x: "x = (d, v)" by (cases x)
  from Cons.prems have s: "sorted (map fst tline)" and le: "\<forall>y \<in> set tline. d \<le> fst y"
    by (auto simp: x)
  show ?case
  proof (cases "d > target")
    case True
    with le have "\<forall>y \<in> set tline. \<not> fst y \<le> target" by fastforce
    then have "filter (\<lambda>(d, v). d \<le> target \<and> \<not> is_blank (PStr v)) tline = []"
      by (auto simp: filter_empty_conv)
    with True show ?thesis by (simp add: x)
  next
    case False
    then show ?thesis
      using Cons.IH [OF s] by (simp add: x Let_def)
  qed
qed

lemma not_blank_nonempty: "\<not> is_blank (PStr v) \<Longrightarrow> v \<noteq> []"
  by (auto simp: is_blank_def BLANK_TOKENS_def strip_def lower_def)

lemma max_by_count_ge: "snd best \<le> snd (max_by_count best xs)"
proof (induction xs arbitrary: best)
  case Nil
  show ?case by simp
next
  case (Cons x xs)
  show ?case
  proof (cases "snd x > snd best")
    case True
    with Cons.IH [of x] show ?thesis by simp
  next
    case False
    with Cons.IH [of best] show ?thesis by simp
  qed
qed

lemma max_by_count_spec:
  "\<exists>pre post. best # xs = pre @ max_by_count best xs # post
     \<and> (\<forall>y \<in> set pre. snd y < snd (max_by_count best xs))
     \<and> (\<forall>y \<in> set post. snd y \<le> snd (max_by_count best xs))"
proof (induction xs arbitrary: best)
  case Nil
  show ?case by (rule exI [of _ "[]"], rule exI [of _ "[]"]) simp
next
  case (Cons x xs)
  show ?case
  proof (cases "snd x > snd best")
    case True
    then have m: "max_by_count best (x # xs) = max_by_count x xs" by simp
    from Cons.IH [of x] obtain pre post where
      p: "x # xs = pre @ max_by_count x xs # post"
      "\<forall>y \<in> set pre. snd y < snd (max_by_count x xs)"
      "\<forall>y \<in> set post. snd y \<le> snd (max_by_count x xs)" by blast
    have ge: "snd x \<le> snd (max_by_count x xs)" by (rule max_by_count_ge)
    show ?thesis unfolding m
    proof (intro exI conjI)
      show "best # x # xs = (best # pre) @ max_by_count x xs # post"
        using p(1) by simp
      show "\<forall>y \<in> set (best # pre). snd y < snd (max_by_count x xs)"
        using True ge p(2) by auto
      show "\<forall>y \<in> set post. snd y \<le> snd (max_by_count x xs)"
        using p(3) .
    qed
  next
    case False
    then have m: "max_by_count best (x # xs) = max_by_count best xs" by simp
    from Cons.IH [of best] obtain pre post where
      p: "best # xs = pre @ max_by_count best xs # post"
      "\<forall>y \<in> set pre. snd y < snd (max_by_count best xs)"
      "\<forall>y \<in> set post. snd y \<le> snd (max_by_count best xs)" by blast
    show ?thesis
    proof (cases pre)
      case Nil
      have e: "best = max_by_count best xs \<and> xs = post"
        using p(1) unfolding Nil append_Nil list.inject .
      have b: "max_by_count best xs = best" using e by (rule conjunct1 [THEN sym])
      have px: "post = xs" using e by (rule conjunct2 [THEN sym])
      show ?thesis unfolding m b
      proof (intro exI conjI)
        show "best # x # xs = [] @ best # x # xs" by simp
        show "\<forall>y \<in> set []. snd y < snd best" by simp
        show "\<forall>y \<in> set (x # xs). snd y \<le> snd best"
          using False p(3) unfolding b px by auto
      qed
    next
      case (Cons a as)
      have e: "best = a \<and> xs = as @ max_by_count best xs # post"
        using p(1) unfolding Cons append_Cons list.inject .
      have a: "a = best" using e by (rule conjunct1 [THEN sym])
      have xs: "xs = as @ max_by_count best xs # post" using e by (rule conjunct2)
      from Cons a p(2) have lt: "snd best < snd (max_by_count best xs)" by simp
      show ?thesis unfolding m
      proof (intro exI conjI)
        show "best # x # xs = (best # x # as) @ max_by_count best xs # post"
          using xs by simp
        show "\<forall>y \<in> set (best # x # as). snd y < snd (max_by_count best xs)"
          using False lt p(2) Cons by auto
        show "\<forall>y \<in> set post. snd y \<le> snd (max_by_count best xs)"
          using p(3) .
      qed
    qed
  qed
qed

text \<open>
  Claim C9. Date-proximate selection over a timeline sorted by date, for a target date:
  \<^item> when some entry that is not blank has a date at or before the target, the last such
    entry of the timeline is returned;
  \<^item> otherwise, when some entry that is not blank has a date at or after the target, the
    first such entry is returned;
  \<^item> when every entry is blank (or there is none), the mode value handed in is returned.
  The mode value that the backfill hands in is \<open>None\<close> for an empty counter and otherwise
  the first value, in the counter's insertion order, of the largest count: most frequent,
  with no tie-break by recency.
\<close>

theorem find_gym_for_date_cases:
  assumes "sorted (map fst timeline)"
  shows "(timeline = pre @ (d, v) # post \<and> d \<le> target \<and> \<not> is_blank (PStr v)
            \<and> (\<forall>(d', v') \<in> set post. \<not> (d' \<le> target \<and> \<not> is_blank (PStr v')))
            \<longrightarrow> find_gym_for_date timeline target mode_value = Some v)
       \<and> ((\<forall>(d', v') \<in> set timeline. \<not> (d' \<le> target \<and> \<not> is_blank (PStr v')))
            \<and> timeline = pre @ (d, v) # post \<and> d \<ge> target \<and> \<not> is_blank (PStr v)
            \<and> (\<forall>(d', v') \<in> set pre. \<not> (d' \<ge> target \<and> \<not> is_blank (PStr v')))
            \<longrightarrow> find_gym_for_date timeline target mode_value = Some v)
       \<and> ((\<forall>(d', v') \<in> set timeline. is_blank (PStr v'))
            \<longrightarrow> find_gym_for_date timeline target mode_value = mode_value)
       \<and> gym_mode [] = None
       \<and> (c \<noteq> [] \<longrightarrow>
            (\<exists>w n before after. gym_mode c = Some w \<and> c = before @ (w, n) # after
               \<and> (\<forall>(w', n') \<in> set before. n' < n) \<and> (\<forall>(w', n') \<in> set after. n' \<le> n)))"
proof (intro conjI impI)
  assume h: "timeline = pre @ (d, v) # post \<and> d \<le> target \<and> \<not> is_blank (PStr v)
            \<and> (\<forall>(d', v') \<in> set post. \<not> (d' \<le> target \<and> \<not> is_blank (PStr v')))"
  then have "filter (\<lambda>(d, v). d \<le> target \<and> \<not> is_blank (PStr v)) post = []"
    by (auto simp: filter_empty_conv)
  with h have f: "filter (\<lambda>(d, v). d \<le> target \<and> \<not> is_blank (PStr v)) timeline
      = filter (\<lambda>(d, v). d \<le> target \<and> \<not> is_blank (PStr v)) pre @ [(d, v)]"
    by simp
  have "scan_prev timeline target None = Some v"
    unfolding scan_prev_sorted [OF assms] f by simp
  moreover have "v \<noteq> []" using h by (simp add: not_blank_nonempty)
  ultimately show "find_gym_for_date timeline target mode_value = Some v"
    by (simp add: find_gym_for_date_def)
next
  assume h: "(\<forall>(d', v') \<in> set timeline. \<not> (d' \<le> target \<and> \<not> is_blank (PStr v')))
            \<and> timeline = pre @ (d, v) # post \<and> d \<ge> target \<and> \<not> is_blank (PStr v)
            \<and> (\<forall>(d', v') \<in> set pre. \<not> (d' \<ge> target \<and> \<not> is_blank (PStr v')))"
  then have "filter (\<lambda>(d, v). d \<le> target \<and> \<not> is_blank (PStr v)) timeline = []"
    unfolding filter_empty_conv by blast
  then have s: "scan_prev timeline target None = None"
    unfolding scan_prev_sorted [OF assms] by simp
  have "find (\<lambda>(d, val). d \<ge> target \<and> \<not> is_blank (PStr val)) (pre @ (d, v) # post)
      = Some (d, v)"
    using h by (intro find_append_first) auto
  then have "find (\<lambda>(d, val). d \<ge> target \<and> \<not> is_blank (PStr val)) timeline = Some (d, v)"
    using h by simp
  with s show "find_gym_for_date timeline target mode_value = Some v"
    by (simp add: find_gym_for_date_def)
next
  assume h: "\<forall>(d', v') \<in> set timeline. is_blank (PStr v')"
  then have "filter (\<lambda>(d, v). d \<le> target \<and> \<not> is_blank (PStr v)) timeline = []"
    unfolding filter_empty_conv by blast
  then have s: "scan_prev timeline target None = None"
    unfolding scan_prev_sorted [OF assms] by simp
  have "find (\<lambda>(d, val). d \<ge> target \<and> \<not> is_blank (PStr val)) timeline = None"
    using h by (intro find_none_all) auto
  with s show "find_gym_for_date timeline target mode_value = mode_value"
    by (simp add: find_gym_for_date_def)
next
  show "gym_mode [] = None" by (simp add: gym_mode_def)
next
  assume "c \<noteq> []"
  then obtain x xs where c: "c = x # xs" by (cases c) auto
  from max_by_count_spec [of x xs] obtain before after where
    p: "x # xs = before @ max_by_count x xs # after"
    "\<forall>y \<in> set before. snd y < snd (max_by_count x xs)"
    "\<forall>y \<in> set after. snd y \<le> snd (max_by_count x xs)" by blast
  obtain w n where m: "max_by_count x xs = (w, n)" by (cases "max_by_count x xs")
  show "\<exists>w n before after. gym_mode c = Some w \<and> c = before @ (w, n) # after
               \<and> (\<forall>(w', n') \<in> set before. n' < n) \<and> (\<forall>(w', n') \<in> set after. n' \<le> n)"
  proof (intro exI conjI)
    show "gym_mode c = Some w" by (simp add: gym_mode_def c m)
    show "c = before @ (w, n) # after" using p(1) unfolding c m .
    show "\<forall>(w', n') \<in> set before. n' < n" using p(2) unfolding m by auto
    show "\<forall>(w', n') \<in> set after. n' \<le> n" using p(3) unfolding m by auto
  qed
qed

theorem find_gym_for_date_cases_witness:
  "find_gym_for_date [((2020, 1, 18), ''Camp A''), ((2021, 3, 6), ''Camp A''), ((2022, 7, 2), ''Camp B'')]
      (2019, 6, 1) (gym_mode [(''Camp A'', 2), (''Camp B'', 1)]) = Some ''Camp A''
   \<and> find_gym_for_date [((2020, 1, 18), ''Camp A''), ((2021, 3, 6), ''Camp A''), ((2022, 7, 2), ''Camp B'')]
      (2023, 1, 1) (gym_mode [(''Camp A'', 2), (''Camp B'', 1)]) = Some ''Camp B''
   \<and> gym_mode [(''Camp A'', 2), (''Camp B'', 1)] = Some ''Camp A''"
proof -
  have b: "\<not> is_blank (PStr ''Camp A'')" "\<not> is_blank (PStr ''Camp B'')" by code_simp+
  have c1: "find_gym_for_date [((2020, 1, 18), ''Camp A''), ((2021, 3, 6), ''Camp A''), ((2022, 7, 2), ''Camp B'')]
      (2019, 6, 1) mv = Some ''Camp A''" for mv
    using find_gym_for_date_cases [of "[((2020, 1, 18), ''Camp A''), ((2021, 3, 6), ''Camp A''), ((2022, 7, 2), ''Camp B'')]"
        "[]" "(2020, 1, 18)" "''Camp A''" "[((2021, 3, 6), ''Camp A''), ((2022, 7, 2), ''Camp B'')]"
        "(2019, 6, 1)" mv] b
    by simp
  have c2: "find_gym_for_date [((2020, 1, 18), ''Camp A''), ((2021, 3, 6), ''Camp A''), ((2022, 7, 2), ''Camp B'')]
      (2023, 1, 1) mv = Some ''Camp B''" for mv
    using find_gym_for_date_cases [of "[((2020, 1, 18), ''Camp A''), ((2021, 3, 6), ''Camp A''), ((2022, 7, 2), ''Camp B'')]"
        "[((2020, 1, 18), ''Camp A''), ((2021, 3, 6), ''Camp A'')]" "(2022, 7, 2)" "''Camp B''" "[]"
        "(2023, 1, 1)" mv] b
    by simp
  have c3: "gym_mode [(''Camp A'', 2), (''Camp B'', 1)] = Some ''Camp A''"
    by (simp add: gym_mode_def)
  from c1 c2 c3 show ?thesis by simp
qed


section \<open>Claims about the activity flag\<close>

lemma map_of_see:
  "map_of (see n d ls) k = (if k = n \<and> n \<noteq> [] then later d (map_of ls n) else map_of ls k)"
  by (auto simp: see_def update_conv' max_def split: option.splits)

lemma map_of_last_seen_row:
  assumes "n \<noteq> []"
  shows "map_of (last_seen_row r ls) n =
     (case parse_date_to_obj (get r ''event_date'') of
        None \<Rightarrow> map_of ls n
      | Some d \<Rightarrow>
          if norm_name (get r ''fighter_1'') = n \<or> norm_name (get r ''fighter_2'') = n
          then later d (map_of ls n) else map_of ls n)"
  using assms
  by (auto simp: last_seen_row_def map_of_see split: option.splits)

lemma map_of_fold_last_seen_row:
  assumes "n \<noteq> []"
  shows "map_of (fold last_seen_row rows ls) n = fold later (dated_appearances n rows) (map_of ls n)"
proof (induction rows arbitrary: ls)
  case Nil
  show ?case by simp
next
  case (Cons r rows)
  show ?case
    by (simp add: Cons.IH map_of_last_seen_row [OF assms] split: option.splits)
qed

lemma fold_later_Some: "fold later ds (Some l) = Some (fold max ds l)"
  by (induction ds arbitrary: l) (simp_all add: max.commute)

lemma fold_later_None:
  "fold later ds None = (if ds = [] then None else Some (Max (set ds)))"
proof (cases ds)
  case Nil
  then show ?thesis by simp
next
  case (Cons d ds')
  have "fold later ds None = fold later ds' (Some d)" by (simp add: Cons)
  also have "\<dots> = Some (fold max ds' d)" by (rule fold_later_Some)
  also have "fold max ds' d = Max (set (d # ds'))" by (rule Max.set_eq_fold [symmetric])
  finally show ?thesis by (simp add: Cons)
qed

lemma set_dated_appearances:
  "set (dated_appearances n rows) =
     {d. \<exists>r \<in> set rows. parse_date_to_obj (get r ''event_date'') = Some d
          \<and> (norm_name (get r ''fighter_1'') = n \<or> norm_name (get r ''fighter_2'') = n)}"
  by (auto split: option.splits if_splits)

lemma get_flag_side_same:
  "get (flag_side today cutoff ls sd r) (sd @ ''_active'') =
     PStr (if (case map_of ls (norm_name (get r sd)) of None \<Rightarrow> False
               | Some lastd \<Rightarrow> toordinal today - toordinal lastd \<le> cutoff)
           then ''TRUE'' else ''FALSE'')"
  by (simp add: flag_side_def get_def update_conv' Let_def)

lemma get_flag_side_other:
  "k \<noteq> sd @ ''_active'' \<Longrightarrow> get (flag_side today cutoff ls sd r) k = get r k"
  by (simp add: flag_side_def get_def update_conv' Let_def)

lemma cutoff_days_3: "cutoff_days 3 = 1095"
  by (simp add: cutoff_days_def)

lemma ordinal_2025_08_23: "toordinal (2025, 8, 23) = 739486"
  by code_simp

lemma norm_jon: "norm_name (PStr ''Jon Jones'') = ''jon jones''"
  by code_simp

lemma norm_alex: "norm_name (PStr ''Alex Pereira'') = ''alex pereira''"
  by code_simp

lemma last_seen_one_row:
  "last_seen_row
     [(''event_date'', PStr ''August 23, 2025''), (''fighter_1'', PStr ''Jon Jones''),
       (''fighter_2'', PStr ''Alex Pereira'')] []
   = [(''jon jones'', (2025, 8, 23)), (''alex pereira'', (2025, 8, 23))]"
  by (simp add: last_seen_row_def get_def parse_long norm_jon norm_alex see_def)

text \<open>
  Claim C1, as the code has it. With \<open>years = 3\<close> the cutoff is \<open>int(365.25 * 3) = 1095\<close>
  days: the product is truncated, not rounded. For a competitor of non-empty normalised
  name, a side of a row holding that name is flagged \<open>TRUE\<close> exactly when the competitor
  has a row with a parseable date and \<open>today\<close> is at most 1095 days after the most recent
  such date; the boundary is inclusive at 1095 days, and a competitor last seen exactly
  1096 days ago is flagged \<open>FALSE\<close>.
\<close>

theorem active_flag_cutoff:
  assumes "i < length rows"
    and "sd = ''fighter_1'' \<or> sd = ''fighter_2''"
    and "n = norm_name (get (rows ! i) sd)"
    and "n \<noteq> []"
    and "D = {d. \<exists>r \<in> set rows. parse_date_to_obj (get r ''event_date'') = Some d
               \<and> (norm_name (get r ''fighter_1'') = n \<or> norm_name (get r ''fighter_2'') = n)}"
  shows "cutoff_days 3 = 1095
       \<and> get (apply_active_flags today 3 rows ! i) (sd @ ''_active'') =
           PStr (if D \<noteq> {} \<and> toordinal today - toordinal (Max D) \<le> 1095
                 then ''TRUE'' else ''FALSE'')"
proof -
  define ls where "ls = fold last_seen_row rows []"
  have D: "D = set (dated_appearances n rows)"
    unfolding assms(5) set_dated_appearances ..
  have e: "(dated_appearances n rows = []) = (D = {})"
    unfolding D by (rule set_empty [symmetric])
  have "map_of ls n = fold later (dated_appearances n rows) None"
    unfolding ls_def map_of_fold_last_seen_row [OF assms(4)] by simp
  also have "\<dots> = (if dated_appearances n rows = [] then None
      else Some (Max (set (dated_appearances n rows))))"
    by (rule fold_later_None)
  finally have ls: "map_of ls n = (if D = {} then None else Some (Max D))"
    unfolding e D [symmetric] .
  have row: "apply_active_flags today 3 rows ! i =
      flag_side today 1095 ls ''fighter_2'' (flag_side today 1095 ls ''fighter_1'' (rows ! i))"
    using assms(1) by (simp add: apply_active_flags_def Let_def ls_def cutoff_days_3)
  have "get (apply_active_flags today 3 rows ! i) (sd @ ''_active'') =
      PStr (if (case map_of ls n of None \<Rightarrow> False
               | Some lastd \<Rightarrow> toordinal today - toordinal lastd \<le> 1095)
           then ''TRUE'' else ''FALSE'')"
  proof (rule disjE [OF assms(2)])
    assume sd: "sd = ''fighter_1''"
    show ?thesis
      unfolding row sd
      using get_flag_side_same [of today 1095 ls "''fighter_1''" "rows ! i"] assms(3)
      by (simp add: get_flag_side_other sd)
  next
    assume sd: "sd = ''fighter_2''"
    have "get (flag_side today 1095 ls ''fighter_1'' (rows ! i)) ''fighter_2'' = get (rows ! i) ''fighter_2''"
      by (simp add: get_flag_side_other)
    then show ?thesis
      unfolding row sd
      using get_flag_side_same [of today 1095 ls "''fighter_2''"
          "flag_side today 1095 ls ''fighter_1'' (rows ! i)"] assms(3)
      by (simp add: sd)
  qed
  then show ?thesis
    by (simp add: ls cutoff_days_3)
qed

theorem active_flag_cutoff_witness:
  "get (apply_active_flags (2028, 8, 22) 3
          [[(''event_date'', PStr ''August 23, 2025''), (''fighter_1'', PStr ''Jon Jones''),
            (''fighter_2'', PStr ''Alex Pereira'')]] ! 0) ''fighter_1_active'' = PStr ''TRUE''
   \<and> toordinal (2028, 8, 22) - toordinal (2025, 8, 23) = 1095
   \<and> get (apply_active_flags (2028, 8, 23) 3
          [[(''event_date'', PStr ''August 23, 2025''), (''fighter_1'', PStr ''Jon Jones''),
            (''fighter_2'', PStr ''Alex Pereira'')]] ! 0) ''fighter_2_active'' = PStr ''FALSE''"
proof -
  have t: "toordinal (2028, 8, 22) = 740581" "toordinal (2028, 8, 23) = 740582" by code_simp+
  have g: "norm_name (get ([[(''event_date'', PStr ''August 23, 2025''), (''fighter_1'', PStr ''Jon Jones''),
              (''fighter_2'', PStr ''Alex Pereira'')]] ! 0) ''fighter_1'') = ''jon jones''"
     "norm_name (get ([[(''event_date'', PStr ''August 23, 2025''), (''fighter_1'', PStr ''Jon Jones''),
              (''fighter_2'', PStr ''Alex Pereira'')]] ! 0) ''fighter_2'') = ''alex pereira''"
    by (simp_all add: get_def norm_jon norm_alex)
  have D1: "{(2025, 8, 23)} = {d. \<exists>r \<in> set [[(''event_date'', PStr ''August 23, 2025''), (''fighter_1'', PStr ''Jon Jones''),
              (''fighter_2'', PStr ''Alex Pereira'')]]. parse_date_to_obj (get r ''event_date'') = Some d
               \<and> (norm_name (get r ''fighter_1'') = ''jon jones'' \<or> norm_name (get r ''fighter_2'') = ''jon jones'')}"
    by (auto simp: get_def parse_long norm_jon norm_alex)
  have D2: "{(2025, 8, 23)} = {d. \<exists>r \<in> set [[(''event_date'', PStr ''August 23, 2025''), (''fighter_1'', PStr ''Jon Jones''),
              (''fighter_2'', PStr ''Alex Pereira'')]]. parse_date_to_obj (get r ''event_date'') = Some d
               \<and> (norm_name (get r ''fighter_1'') = ''alex pereira'' \<or> norm_name (get r ''fighter_2'') = ''alex pereira'')}"
    by (auto simp: get_def parse_long norm_jon norm_alex)
  have w1: "get (apply_active_flags (2028, 8, 22) 3
          [[(''event_date'', PStr ''August 23, 2025''), (''fighter_1'', PStr ''Jon Jones''),
            (''fighter_2'', PStr ''Alex Pereira'')]] ! 0) ''fighter_1_active'' = PStr ''TRUE''"
    using active_flag_cutoff [of 0 _ "''fighter_1''" "''jon jones''" "{(2025, 8, 23)}" "(2028, 8, 22)",
        OF _ _ g(1) [symmetric] _ D1]
    by (simp add: t ordinal_2025_08_23)
  have w2: "get (apply_active_flags (2028, 8, 23) 3
          [[(''event_date'', PStr ''August 23, 2025''), (''fighter_1'', PStr ''Jon Jones''),
            (''fighter_2'', PStr ''Alex Pereira'')]] ! 0) ''fighter_2_active'' = PStr ''FALSE''"
    using active_flag_cutoff [of 0 _ "''fighter_2''" "''alex pereira''" "{(2025, 8, 23)}" "(2028, 8, 23)",
        OF _ _ g(2) [symmetric] _ D2]
    by (simp add: t ordinal_2025_08_23)
  from w1 w2 show ?thesis by (simp add: t ordinal_2025_08_23)
qed


text \<open>
  Claim C1 as the specification states it, with the cutoff \<open>round(365.25 * 3) = 1096\<close>,
  fails for a competitor whose only fight was 1096 days before today.
\<close>

theorem active_flag_counterexample:
  "toordinal (2028, 8, 23) - toordinal (2025, 8, 23) = 1096
   \<and> get (apply_active_flags (2028, 8, 23) 3
            [[(''event_date'', PStr ''August 23, 2025''), (''fighter_1'', PStr ''Jon Jones''),
              (''fighter_2'', PStr ''Alex Pereira'')]] ! 0) ''fighter_1_active'' = PStr ''FALSE''"
proof -
  have t: "toordinal (2028, 8, 23) = 740582" by code_simp
  have g: "norm_name (get [(''event_date'', PStr ''August 23, 2025''), (''fighter_1'', PStr ''Jon Jones''),
              (''fighter_2'', PStr ''Alex Pereira'')] ''fighter_1'') = ''jon jones''"
    by (simp add: get_def norm_jon)
  show ?thesis
    using get_flag_side_same [of "(2028, 8, 23)" 1095
        "[(''jon jones'', (2025, 8, 23)), (''alex pereira'', (2025, 8, 23))]" "''fighter_1''"
        "[(''event_date'', PStr ''August 23, 2025''), (''fighter_1'', PStr ''Jon Jones''),
              (''fighter_2'', PStr ''Alex Pereira'')]"]
    by (simp add: apply_active_flags_def Let_def last_seen_one_row cutoff_days_3
        get_flag_side_other g t ordinal_2025_08_23)
qed


section \<open>Claims about the tallies written by the causal pass\<close>

lemma get_write_counters_same:
  "get (write_counters sd w l r) (wins_key sd) = PStr (str_nat w)"
  "get (write_counters sd w l r) (loss_key sd) = PStr (str_nat l)"
  by (simp_all add: get_def write_counters_def update_conv')

lemma get_write_counters_other_side:
  "sd' \<noteq> sd \<Longrightarrow> get (write_counters sd w l r) (wins_key sd') = get r (wins_key sd')"
  "sd' \<noteq> sd \<Longrightarrow> get (write_counters sd w l r) (loss_key sd') = get r (loss_key sd')"
  by (cases sd; cases sd'; simp add: get_def write_counters_def update_conv')+

lemma walk_Cons:
  "walk ((d, sd, i) # items) wl rows
     = walk items (update_counters sd (rows ! i) wl)
         (rows[i := write_counters sd (fst wl) (snd wl) (rows ! i)])"
proof -
  have "update_counters sd (write_counters sd (fst wl) (snd wl) (rows ! i)) wl
      = update_counters sd (rows ! i) wl"
    by (rule update_counters_cong) (rule get_write_counters_result)
  then show ?thesis by (simp add: Let_def)
qed

lemma length_walk: "length (walk items wl rows) = length rows"
proof (induction items arbitrary: wl rows)
  case Nil
  show ?case by simp
next
  case (Cons x items)
  obtain d sd i where x: "x = (d, sd, i)" by (cases x)
  show ?case unfolding x walk_Cons by (simp add: Cons.IH)
qed

lemma result_list_update:
  "get (rows[i := write_counters sd w l (rows ! i)] ! j) ''result'' = get (rows ! j) ''result''"
proof (cases "i < length rows \<and> j = i")
  case True
  then show ?thesis by (simp add: get_write_counters_result)
next
  case False
  then show ?thesis by (cases "i < length rows") (auto simp: list_update_beyond)
qed

lemma result_walk: "get (walk items wl rows ! j) ''result'' = get (rows ! j) ''result''"
proof (induction items arbitrary: wl rows)
  case Nil
  show ?case by simp
next
  case (Cons x items)
  obtain d sd i where x: "x = (d, sd, i)" by (cases x)
  show ?case unfolding x walk_Cons by (simp add: Cons.IH result_list_update)
qed

lemma counters_walk_untouched:
  assumes "(sd, j) \<notin> snd ` set items"
  shows "get (walk items wl rows ! j) (wins_key sd) = get (rows ! j) (wins_key sd)
       \<and> get (walk items wl rows ! j) (loss_key sd) = get (rows ! j) (loss_key sd)"
  using assms
proof (induction items arbitrary: wl rows)
  case Nil
  show ?case by simp
next
  case (Cons x items)
  obtain d sd0 i where x: "x = (d, sd0, i)" by (cases x)
  from Cons.prems have ne: "(sd, j) \<noteq> (sd0, i)" and rest: "(sd, j) \<notin> snd ` set items"
    by (auto simp: x)
  have step: "get (rows[i := write_counters sd0 (fst wl) (snd wl) (rows ! i)] ! j) (wins_key sd)
        = get (rows ! j) (wins_key sd)
      \<and> get (rows[i := write_counters sd0 (fst wl) (snd wl) (rows ! i)] ! j) (loss_key sd)
        = get (rows ! j) (loss_key sd)"
  proof (cases "i < length rows \<and> j = i")
    case True
    with ne have "sd \<noteq> sd0" by simp
    with True show ?thesis
      using get_write_counters_other_side [of sd sd0] by simp
  next
    case False
    then show ?thesis by (cases "i < length rows") (auto simp: list_update_beyond)
  qed
  show ?case unfolding x walk_Cons
    using Cons.IH [OF rest] step by simp
qed

lemma tally_over_cong:
  "(\<And>j. get (rows' ! j) ''result'' = get (rows ! j) ''result'') \<Longrightarrow>
   tally_over rows' its wl = tally_over rows its wl"
proof (induction its arbitrary: wl)
  case Nil
  show ?case by simp
next
  case (Cons x its)
  obtain d sd i where x: "x = (d, sd, i)" by (cases x)
  have "update_counters sd (rows' ! i) wl = update_counters sd (rows ! i) wl"
    by (rule update_counters_cong) (rule Cons.prems)
  then show ?case using Cons.IH [OF Cons.prems] by (simp add: x)
qed

lemma walk_writes:
  assumes "distinct (map snd items)"
    and "\<forall>(d, sd, i) \<in> set items. i < length rows"
    and "p < length items"
    and "items ! p = (d, sd, i)"
  shows "get (walk items wl rows ! i) (wins_key sd) = PStr (str_nat (fst (tally_over rows (take p items) wl)))
       \<and> get (walk items wl rows ! i) (loss_key sd) = PStr (str_nat (snd (tally_over rows (take p items) wl)))"
  using assms
proof (induction items arbitrary: wl rows p)
  case Nil
  then show ?case by simp
next
  case (Cons x items)
  obtain d0 sd0 i0 where x: "x = (d0, sd0, i0)" by (cases x)
  define r0 where "r0 = write_counters sd0 (fst wl) (snd wl) (rows ! i0)"
  define rows' where "rows' = rows[i0 := r0]"
  define wl' where "wl' = update_counters sd0 (rows ! i0) wl"
  have w: "walk (x # items) wl rows = walk items wl' rows'"
    unfolding x walk_Cons rows'_def r0_def wl'_def ..
  from Cons.prems(1) have notin: "(sd0, i0) \<notin> snd ` set items" and dist: "distinct (map snd items)"
    by (auto simp: x)
  from Cons.prems(2) have i0: "i0 < length rows" and bound: "\<forall>(d, sd, i) \<in> set items. i < length rows'"
    by (auto simp: x rows'_def)
  show ?case
  proof (cases p)
    case 0
    with Cons.prems(4) have e: "d = d0" "sd = sd0" "i = i0" by (simp_all add: x)
    have "rows' ! i0 = r0" using i0 by (simp add: rows'_def)
    then show ?thesis
      unfolding w e 0
      using counters_walk_untouched [OF notin, of wl' rows']
      by (simp add: r0_def get_write_counters_same)
  next
    case (Suc q)
    with Cons.prems(3,4) have q: "q < length items" "items ! q = (d, sd, i)" by simp_all
    have res: "\<And>j. get (rows' ! j) ''result'' = get (rows ! j) ''result''"
      unfolding rows'_def r0_def by (rule result_list_update)
    have t: "tally_over rows (take p (x # items)) wl = tally_over rows' (take q items) wl'"
      unfolding Suc tally_over_cong [OF res] by (simp add: x wl'_def)
    show ?thesis
      unfolding w t by (rule Cons.IH [OF dist bound q])
  qed
qed

lemma length_walk_all: "length (walk_all tln rows) = length rows"
  by (induction tln arbitrary: rows) (auto simp: length_walk)

lemma result_walk_all: "get (walk_all tln rows ! j) ''result'' = get (rows ! j) ''result''"
  by (induction tln arbitrary: rows) (auto simp: result_walk)

lemma counters_walk_all_untouched:
  assumes "\<forall>(n, items) \<in> set tln. (sd, j) \<notin> snd ` set items"
  shows "get (walk_all tln rows ! j) (wins_key sd) = get (rows ! j) (wins_key sd)
       \<and> get (walk_all tln rows ! j) (loss_key sd) = get (rows ! j) (loss_key sd)"
  using assms
proof (induction tln arbitrary: rows)
  case Nil
  show ?case by simp
next
  case (Cons e tln)
  obtain n items where e: "e = (n, items)" by (cases e)
  from Cons.prems have here: "(sd, j) \<notin> snd ` set (sort_key fst items)"
    and rest: "\<forall>(n, items) \<in> set tln. (sd, j) \<notin> snd ` set items"
    by (auto simp: e)
  show ?case
    using Cons.IH [OF rest, of "walk (sort_key fst items) (0, 0) rows"]
      counters_walk_untouched [OF here, of "(0, 0)" rows]
    by (simp add: e)
qed

lemma map_of_timeline_append:
  "map_of (timeline_append n x tln) m =
     (if m = n then Some ((case map_of tln n of None \<Rightarrow> [] | Some xs \<Rightarrow> xs) @ [x])
      else map_of tln m)"
  by (auto simp: timeline_append_def update_conv' split: option.splits)

lemma distinct_timeline_append:
  "distinct (map fst tln) \<Longrightarrow> distinct (map fst (timeline_append n x tln))"
  by (auto simp: timeline_append_def distinct_update split: option.splits)

lemma timeline_ok_mono: "timeline_ok rows U tln \<Longrightarrow> U \<subseteq> V \<Longrightarrow> timeline_ok rows V tln"
  unfolding timeline_ok_def by fast

lemma timeline_ok_append:
  assumes "timeline_ok rows U tln" and "(sd, i) \<notin> U" and "name_at rows sd i = n"
  shows "timeline_ok rows (insert (sd, i) U) (timeline_append n (d, sd, i) tln)"
  unfolding timeline_ok_def
proof (intro conjI allI impI)
  show "distinct (map fst (timeline_append n (d, sd, i) tln))"
    using assms(1) by (simp add: timeline_ok_def distinct_timeline_append)
next
  fix m items
  assume m: "map_of (timeline_append n (d, sd, i) tln) m = Some items"
  show "distinct (map snd items)"
  proof (cases "m = n")
    case False
    with m have "map_of tln m = Some items" by (simp add: map_of_timeline_append)
    with assms(1) show ?thesis by (simp add: timeline_ok_def)
  next
    case True
    show ?thesis
    proof (cases "map_of tln n")
      case None
      with m True show ?thesis by (auto simp: map_of_timeline_append)
    next
      case (Some xs)
      with m True have items: "items = xs @ [(d, sd, i)]" by (simp add: map_of_timeline_append)
      from assms(1) Some have dx: "distinct (map snd xs)"
        and inU: "\<forall>(d, sd, i) \<in> set xs. (sd, i) \<in> U"
        unfolding timeline_ok_def by fast+
      from inU assms(2) have "(sd, i) \<notin> snd ` set xs" by force
      with dx show ?thesis by (simp add: items)
    qed
  qed
  show "\<forall>(d', sd', i') \<in> set items. (sd', i') \<in> insert (sd, i) U \<and> name_at rows sd' i' = m"
  proof (cases "m = n")
    case False
    with m have "map_of tln m = Some items" by (simp add: map_of_timeline_append)
    with assms(1) show ?thesis unfolding timeline_ok_def by fast
  next
    case True
    show ?thesis
    proof (cases "map_of tln n")
      case None
      with m True have "items = [(d, sd, i)]" by (simp add: map_of_timeline_append)
      with assms(3) True show ?thesis by simp
    next
      case (Some xs)
      with m True have items: "items = xs @ [(d, sd, i)]" by (simp add: map_of_timeline_append)
      from assms(1) Some have "\<forall>(d, sd, i) \<in> set xs. (sd, i) \<in> U \<and> name_at rows sd i = n"
        unfolding timeline_ok_def by fast
      with assms(3) True show ?thesis by (auto simp: items)
    qed
  qed
qed

lemma timeline_ok_row:
  assumes "timeline_ok rows {(sd, i). i < k} tln"
  shows "timeline_ok rows {(sd, i). i < Suc k} (timeline_row k (rows ! k) tln)"
proof -
  define d where "d = event_date_or_min (rows ! k)"
  define tln1 where "tln1 = (if name_at rows F1 k \<noteq> [] then timeline_append (name_at rows F1 k) (d, F1, k) tln else tln)"
  have row: "timeline_row k (rows ! k) tln =
      (if name_at rows F2 k \<noteq> [] then timeline_append (name_at rows F2 k) (d, F2, k) tln1 else tln1)"
    by (simp add: timeline_row_def Let_def tln1_def d_def)
  have "timeline_ok rows (insert (F1, k) {(sd, i). i < k}) (timeline_append (name_at rows F1 k) (d, F1, k) tln)"
    by (rule timeline_ok_append [OF assms]) simp_all
  moreover have "timeline_ok rows (insert (F1, k) {(sd, i). i < k}) tln"
    by (rule timeline_ok_mono [OF assms]) auto
  ultimately have one: "timeline_ok rows (insert (F1, k) {(sd, i). i < k}) tln1"
    by (simp add: tln1_def)
  have "timeline_ok rows (insert (F2, k) (insert (F1, k) {(sd, i). i < k}))
      (timeline_append (name_at rows F2 k) (d, F2, k) tln1)"
    by (rule timeline_ok_append [OF one]) simp_all
  moreover have "timeline_ok rows (insert (F2, k) (insert (F1, k) {(sd, i). i < k})) tln1"
    by (rule timeline_ok_mono [OF one]) auto
  ultimately have two: "timeline_ok rows (insert (F2, k) (insert (F1, k) {(sd, i). i < k}))
      (timeline_row k (rows ! k) tln)"
    by (simp add: row)
  have "insert (F2, k) (insert (F1, k) {(sd, i). i < k}) \<subseteq> {(sd, i). i < Suc k}" by auto
  with two show ?thesis by (rule timeline_ok_mono)
qed

lemma timeline_ok_build:
  assumes "timeline_ok rows {(sd, i). i < k} tln" and "rs = drop k rows" and "k \<le> length rows"
  shows "timeline_ok rows {(sd, i). i < length rows} (build_timeline rs k tln)"
  using assms
proof (induction rs arbitrary: k tln)
  case Nil
  then have "k = length rows" by simp
  with Nil.prems(1) show ?case by simp
next
  case (Cons r rs)
  from Cons.prems(2) have k: "k < length rows"
    by (metis drop_eq_Nil list.distinct(1) not_le)
  with Cons.prems(2) have r: "r = rows ! k" and rs: "rs = drop (Suc k) rows"
    by (metis Cons_nth_drop_Suc list.inject)+
  have ok: "timeline_ok rows {(sd, i). i < Suc k} (timeline_row k r tln)"
    unfolding r by (rule timeline_ok_row [OF Cons.prems(1)])
  from k have "Suc k \<le> length rows" by simp
  from Cons.IH [OF ok rs this] show ?case by simp
qed

lemma timeline_ok_build_all:
  "timeline_ok rows {(sd, i). i < length rows} (build_timeline rows 0 [])"
proof (rule timeline_ok_build)
  show "timeline_ok rows {(sd, i). i < 0} []" by (simp add: timeline_ok_def)
  show "rows = drop 0 rows" by simp
  show "0 \<le> length rows" by simp
qed

lemma update_counters_steps:
  assumes "res = lower (strip (or_empty (get r ''result'')))"
  shows "fst wl \<le> fst (update_counters sd r wl) \<and> snd wl \<le> snd (update_counters sd r wl)
       \<and> (startswith res ''win'' \<or> startswith res ''loss'' \<longrightarrow>
            update_counters sd r wl = (fst wl + 1, snd wl)
          \<or> update_counters sd r wl = (fst wl, snd wl + 1))"
proof (cases wl)
  case (Pair w l)
  show ?thesis
    unfolding Pair update_counters_def assms Let_def by (simp split: if_splits)
qed


lemma timeline_full_append:
  assumes "timeline_full rows U tln" and "name_at rows sd i = n" and "n \<noteq> []"
  shows "timeline_full rows (insert (sd, i) U)
           (timeline_append n (event_date_or_min (rows ! i), sd, i) tln)"
proof -
  define tln' where "tln' = timeline_append n (event_date_or_min (rows ! i), sd, i) tln"
  have old1: "\<And>m items. map_of tln m = Some items \<Longrightarrow>
      m \<noteq> [] \<and> (\<forall>(d, sd, i) \<in> set items. d = event_date_or_min (rows ! i))"
    using assms(1) unfolding timeline_full_def by fast
  have old2: "\<And>sd' j. (sd', j) \<in> U \<Longrightarrow> name_at rows sd' j \<noteq> [] \<Longrightarrow>
      \<exists>items. map_of tln (name_at rows sd' j) = Some items
         \<and> (event_date_or_min (rows ! j), sd', j) \<in> set items"
    using assms(1) unfolding timeline_full_def by fast
  have part1: "m \<noteq> [] \<and> (\<forall>(d, sd, i) \<in> set items. d = event_date_or_min (rows ! i))"
    if m: "map_of tln' m = Some items" for m items
  proof (cases "m = n")
    case False
    with m have "map_of tln m = Some items" by (simp add: tln'_def map_of_timeline_append)
    then show ?thesis by (rule old1)
  next
    case True
    show ?thesis
    proof (cases "map_of tln n")
      case None
      with m True assms(3) show ?thesis by (auto simp: tln'_def map_of_timeline_append)
    next
      case (Some xs)
      with m True have items: "items = xs @ [(event_date_or_min (rows ! i), sd, i)]"
        by (simp add: tln'_def map_of_timeline_append)
      from old1 [OF Some] have "\<forall>(d, sd, i) \<in> set xs. d = event_date_or_min (rows ! i)"
        by simp
      with True assms(3) show ?thesis by (auto simp: items)
    qed
  qed
  have part2: "\<exists>items. map_of tln' (name_at rows sd' j) = Some items
         \<and> (event_date_or_min (rows ! j), sd', j) \<in> set items"
    if x: "(sd', j) \<in> insert (sd, i) U" and ne: "name_at rows sd' j \<noteq> []" for sd' j
  proof (cases "(sd', j) = (sd, i)")
    case True
    then show ?thesis using assms(2) by (simp add: tln'_def map_of_timeline_append)
  next
    case False
    with x have "(sd', j) \<in> U" by blast
    from old2 [OF this ne] obtain items where
      it: "map_of tln (name_at rows sd' j) = Some items"
      "(event_date_or_min (rows ! j), sd', j) \<in> set items" by blast
    show ?thesis
    proof (cases "name_at rows sd' j = n")
      case True
      with it show ?thesis by (simp add: tln'_def map_of_timeline_append)
    next
      case False
      with it show ?thesis by (simp add: tln'_def map_of_timeline_append)
    qed
  qed
  have "timeline_full rows (insert (sd, i) U) tln'"
    unfolding timeline_full_def
  proof (intro conjI)
    show "\<forall>n items. map_of tln' n = Some items \<longrightarrow>
        n \<noteq> [] \<and> (\<forall>(d, sd, i) \<in> set items. d = event_date_or_min (rows ! i))"
      using part1 by blast
    show "\<forall>(sd', j) \<in> insert (sd, i) U. name_at rows sd' j \<noteq> [] \<longrightarrow>
        (\<exists>items. map_of tln' (name_at rows sd' j) = Some items
           \<and> (event_date_or_min (rows ! j), sd', j) \<in> set items)"
      using part2 by blast
  qed
  then show ?thesis unfolding tln'_def .
qed

lemma timeline_full_skip:
  assumes "timeline_full rows U tln" and "name_at rows sd i = []"
  shows "timeline_full rows (insert (sd, i) U) tln"
  using assms unfolding timeline_full_def by auto

lemma sides_below_Suc:
  "insert (F2, k) (insert (F1, k) {(sd, i). i < k}) = {(sd :: side, i). i < Suc k}"
proof -
  have "sd = F1 \<or> sd = F2" for sd by (cases sd) simp_all
  then show ?thesis by (auto simp: less_Suc_eq)
qed

lemma timeline_full_row:
  assumes "timeline_full rows {(sd, i). i < k} tln"
  shows "timeline_full rows {(sd, i). i < Suc k} (timeline_row k (rows ! k) tln)"
proof -
  define d where "d = event_date_or_min (rows ! k)"
  define tln1 where "tln1 = (if name_at rows F1 k \<noteq> [] then timeline_append (name_at rows F1 k) (d, F1, k) tln else tln)"
  have row: "timeline_row k (rows ! k) tln =
      (if name_at rows F2 k \<noteq> [] then timeline_append (name_at rows F2 k) (d, F2, k) tln1 else tln1)"
    by (simp add: timeline_row_def Let_def tln1_def d_def)
  have one: "timeline_full rows (insert (F1, k) {(sd, i). i < k}) tln1"
  proof (cases "name_at rows F1 k = []")
    case True
    then have "tln1 = tln" by (simp add: tln1_def)
    then show ?thesis using timeline_full_skip [OF assms, where sd = F1 and i = k] True by simp
  next
    case False
    then have "tln1 = timeline_append (name_at rows F1 k) (d, F1, k) tln" by (simp add: tln1_def)
    then show ?thesis
      unfolding d_def using timeline_full_append [OF assms refl, where sd = F1 and i = k] False by simp
  qed
  have two: "timeline_full rows (insert (F2, k) (insert (F1, k) {(sd, i). i < k}))
      (timeline_row k (rows ! k) tln)"
  proof (cases "name_at rows F2 k = []")
    case True
    then have "timeline_row k (rows ! k) tln = tln1" by (simp add: row)
    then show ?thesis using timeline_full_skip [OF one, where sd = F2 and i = k] True by simp
  next
    case False
    then have "timeline_row k (rows ! k) tln = timeline_append (name_at rows F2 k) (d, F2, k) tln1"
      by (simp add: row)
    then show ?thesis
      unfolding d_def using timeline_full_append [OF one refl, where sd = F2 and i = k] False by simp
  qed
  then show ?thesis unfolding sides_below_Suc .
qed

lemma timeline_full_build:
  assumes "timeline_full rows {(sd, i). i < k} tln" and "rs = drop k rows" and "k \<le> length rows"
  shows "timeline_full rows {(sd, i). i < length rows} (build_timeline rs k tln)"
  using assms
proof (induction rs arbitrary: k tln)
  case Nil
  then have "k = length rows" by simp
  with Nil.prems(1) show ?case by simp
next
  case (Cons r rs)
  from Cons.prems(2) have k: "k < length rows"
    by (metis drop_eq_Nil list.distinct(1) not_le)
  with Cons.prems(2) have r: "r = rows ! k" and rs: "rs = drop (Suc k) rows"
    by (metis Cons_nth_drop_Suc list.inject)+
  have ok: "timeline_full rows {(sd, i). i < Suc k} (timeline_row k r tln)"
    unfolding r by (rule timeline_full_row [OF Cons.prems(1)])
  from k have "Suc k \<le> length rows" by simp
  from Cons.IH [OF ok rs this] show ?case by simp
qed

lemma timeline_full_build_all:
  "timeline_full rows {(sd, i). i < length rows} (build_timeline rows 0 [])"
proof (rule timeline_full_build)
  show "timeline_full rows {(sd, i). i < 0} []" by (simp add: timeline_full_def)
  show "rows = drop 0 rows" by simp
  show "0 \<le> length rows" by simp
qed

text \<open>
  Claim C2. Let \<open>chron\<close> be a competitor's timeline sorted by date (a row without a
  parseable date counts as the earliest date), and \<open>(d, sd, i)\<close> its entry at position
  \<open>p\<close>. The timeline holds every appearance of the competitor, on either side, and only
  those. The tally found after the pass in row \<open>i\<close>, in the win and loss fields of side
  \<open>sd\<close>, is the tally reached from (0, 0) over the \<open>p\<close> earlier entries only: it is (0, 0)
  at the first entry, and the tally of the next entry results from it by the update for
  this row's result, which lowers neither component and, when the result is a win or a
  loss, raises exactly one component by exactly one.
\<close>

theorem tallies_before_each_fight:
  assumes "(n, items) \<in> set (build_timeline rows 0 [])"
    and "chron = sort_key fst items"
    and "p < length chron"
    and "chron ! p = (d, sd, i)"
    and "tally = tally_over rows (take p chron) (0, 0)"
    and "res = lower (strip (or_empty (get (rows ! i) ''result'')))"
  shows "sorted (map fst chron)
       \<and> n \<noteq> []
       \<and> (\<forall>j sd'. j < length rows \<and> name_at rows sd' j = n \<longrightarrow>
            (event_date_or_min (rows ! j), sd', j) \<in> set chron)
       \<and> d = event_date_or_min (rows ! i)
       \<and> i < length rows \<and> name_at rows sd i = n
       \<and> get (compute_ufc_counters rows ! i) (wins_key sd) = PStr (str_nat (fst tally))
       \<and> get (compute_ufc_counters rows ! i) (loss_key sd) = PStr (str_nat (snd tally))
       \<and> (p = 0 \<longrightarrow> tally = (0, 0))
       \<and> tally_over rows (take (Suc p) chron) (0, 0) = update_counters sd (rows ! i) tally
       \<and> fst tally \<le> fst (update_counters sd (rows ! i) tally)
       \<and> snd tally \<le> snd (update_counters sd (rows ! i) tally)
       \<and> (startswith res ''win'' \<or> startswith res ''loss'' \<longrightarrow>
            update_counters sd (rows ! i) tally = (fst tally + 1, snd tally)
          \<or> update_counters sd (rows ! i) tally = (fst tally, snd tally + 1))"
proof -
  define tln where "tln = build_timeline rows 0 []"
  have ok: "timeline_ok rows {(sd, i). i < length rows} tln"
    unfolding tln_def by (rule timeline_ok_build_all)
  then have dk: "distinct (map fst tln)" by (simp add: timeline_ok_def)
  from assms(1) have mem: "(n, items) \<in> set tln" by (simp add: tln_def)
  with dk have mo: "map_of tln n = Some items" by simp
  with ok have di: "distinct (map snd items)"
    and its: "\<forall>(d, sd, i) \<in> set items. i < length rows \<and> name_at rows sd i = n"
    unfolding timeline_ok_def by fast+
  have sc: "set chron = set items" by (simp add: assms(2))
  have dc: "distinct (map snd chron)"
    using di by (simp add: assms(2) distinct_map)
  from assms(3,4) have inset: "(d, sd, i) \<in> set chron"
    using nth_mem [of p chron] by simp
  with sc its have i: "i < length rows" and nm: "name_at rows sd i = n" by fast+
  have full: "timeline_full rows {(sd, i). i < length rows} tln"
    unfolding tln_def by (rule timeline_full_build_all)
  from full mo have nne: "n \<noteq> []"
    and dates: "\<forall>(d, sd, i) \<in> set items. d = event_date_or_min (rows ! i)"
    unfolding timeline_full_def by fast+
  from inset have "(d, sd, i) \<in> set items" unfolding sc .
  with dates have dt: "d = event_date_or_min (rows ! i)" by fast
  have all_in: "(event_date_or_min (rows ! j), sd', j) \<in> set chron"
    if j: "j < length rows" and nj: "name_at rows sd' j = n" for j sd'
  proof -
    from j have "(sd', j) \<in> {(sd, i). i < length rows}" by simp
    moreover from nj nne have "name_at rows sd' j \<noteq> []" by simp
    ultimately obtain items' where
      "map_of tln (name_at rows sd' j) = Some items'"
      "(event_date_or_min (rows ! j), sd', j) \<in> set items'"
      using full unfolding timeline_full_def by fast
    with mo nj show ?thesis by (simp add: sc)
  qed
  from mem obtain before after where split: "tln = before @ (n, items) # after"
    using split_list [of "(n, items)" tln] by blast
  define rows1 where "rows1 = walk_all before rows"
  define rows2 where "rows2 = walk chron (0, 0) rows1"
  have final: "compute_ufc_counters rows = walk_all after rows2"
    by (simp add: compute_ufc_counters_def tln_def [symmetric] split rows2_def rows1_def assms(2))
  have len1: "length rows1 = length rows" by (simp add: rows1_def length_walk_all)
  have others: "\<forall>(m, xs) \<in> set after. (sd, i) \<notin> snd ` set xs"
  proof -
    have "(sd, i) \<notin> snd ` set xs" if mx: "(m, xs) \<in> set after" for m xs
    proof
      assume "(sd, i) \<in> snd ` set xs"
      then obtain a where a: "(a, sd, i) \<in> set xs" by force
      from mx split have in_tln: "(m, xs) \<in> set tln" by simp
      with dk have "map_of tln m = Some xs" by simp
      with ok a have "name_at rows sd i = m" unfolding timeline_ok_def by fast
      with nm have mn: "m = n" by simp
      with mx have "n \<in> fst ` set after" by force
      moreover have "n \<notin> fst ` set after" using dk unfolding split by simp
      ultimately show False by simp
    qed
    then show ?thesis by fast
  qed
  have bound: "\<forall>(d, sd, i) \<in> set chron. i < length rows1"
    unfolding sc len1 using its by fast
  have res1: "\<And>j. get (rows1 ! j) ''result'' = get (rows ! j) ''result''"
    unfolding rows1_def by (rule result_walk_all)
  have t: "tally_over rows1 (take p chron) (0, 0) = tally"
    unfolding assms(5) by (rule tally_over_cong [OF res1])
  have written: "get (rows2 ! i) (wins_key sd) = PStr (str_nat (fst tally))
      \<and> get (rows2 ! i) (loss_key sd) = PStr (str_nat (snd tally))"
    unfolding rows2_def
    using walk_writes [OF dc bound assms(3,4), of "(0, 0)"] unfolding t .
  have kept: "get (compute_ufc_counters rows ! i) (wins_key sd) = get (rows2 ! i) (wins_key sd)
      \<and> get (compute_ufc_counters rows ! i) (loss_key sd) = get (rows2 ! i) (loss_key sd)"
    unfolding final by (rule counters_walk_all_untouched [OF others])
  have nxt: "tally_over rows (take (Suc p) chron) (0, 0) = update_counters sd (rows ! i) tally"
    using assms(3,4) by (simp add: take_Suc_conv_app_nth assms(5))
  have zero: "p = 0 \<longrightarrow> tally = (0, 0)" by (simp add: assms(5))
  have srt: "sorted (map fst chron)" by (simp add: assms(2))
  note st = update_counters_steps [OF assms(6), of tally sd]
  show ?thesis
  proof (intro conjI)
    show "sorted (map fst chron)" by (rule srt)
    show "n \<noteq> []" by (rule nne)
    show "\<forall>j sd'. j < length rows \<and> name_at rows sd' j = n \<longrightarrow>
        (event_date_or_min (rows ! j), sd', j) \<in> set chron"
      using all_in by blast
    show "d = event_date_or_min (rows ! i)" by (rule dt)
    show "i < length rows" by (rule i)
    show "name_at rows sd i = n" by (rule nm)
    show "get (compute_ufc_counters rows ! i) (wins_key sd) = PStr (str_nat (fst tally))"
      using kept written by (rule_tac trans [OF conjunct1 conjunct1])
    show "get (compute_ufc_counters rows ! i) (loss_key sd) = PStr (str_nat (snd tally))"
      using kept written by (rule_tac trans [OF conjunct2 conjunct2])
    show "p = 0 \<longrightarrow> tally = (0, 0)" by (rule zero)
    show "tally_over rows (take (Suc p) chron) (0, 0) = update_counters sd (rows ! i) tally"
      by (rule nxt)
    show "fst tally \<le> fst (update_counters sd (rows ! i) tally)"
      using st by (rule conjunct1)
    show "snd tally \<le> snd (update_counters sd (rows ! i) tally)"
      using st by (rule conjunct2 [THEN conjunct1])
    show "startswith res ''win'' \<or> startswith res ''loss'' \<longrightarrow>
            update_counters sd (rows ! i) tally = (fst tally + 1, snd tally)
          \<or> update_counters sd (rows ! i) tally = (fst tally, snd tally + 1)"
      using st by (rule conjunct2 [THEN conjunct2])
  qed
qed


lemma parse_2024_06_01: "parse_date_to_obj (PStr ''2024-06-01'') = Some (2024, 6, 1)"
  by code_simp

lemma parse_2024_01_13: "parse_date_to_obj (PStr ''2024-01-13'') = Some (2024, 1, 13)"
  by code_simp

lemma norm_three:
  "norm_name (PStr ''Ana Silva'') = ''ana silva''"
  "norm_name (PStr ''Bea Cruz'') = ''bea cruz''"
  "norm_name (PStr ''Cy Dunn'') = ''cy dunn''"
  by code_simp+

lemma build_timeline_two_rows:
  "build_timeline
     [[(''event_date'', PStr ''2024-06-01''), (''fighter_1'', PStr ''Ana Silva''),
       (''fighter_2'', PStr ''Cy Dunn''), (''result'', PStr ''loss'')],
      [(''event_date'', PStr ''2024-01-13''), (''fighter_1'', PStr ''Ana Silva''),
       (''fighter_2'', PStr ''Bea Cruz''), (''result'', PStr ''win'')]] 0 []
   = [(''ana silva'', [((2024, 6, 1), F1, 0), ((2024, 1, 13), F1, 1)]),
      (''cy dunn'', [((2024, 6, 1), F2, 0)]),
      (''bea cruz'', [((2024, 1, 13), F2, 1)])]"
  by (simp add: timeline_row_def timeline_append_def event_date_or_min_def get_def Let_def
      parse_2024_06_01 parse_2024_01_13 norm_three)

theorem tallies_before_each_fight_witness:
  "get (compute_ufc_counters
          [[(''event_date'', PStr ''2024-06-01''), (''fighter_1'', PStr ''Ana Silva''),
            (''fighter_2'', PStr ''Cy Dunn''), (''result'', PStr ''loss'')],
           [(''event_date'', PStr ''2024-01-13''), (''fighter_1'', PStr ''Ana Silva''),
            (''fighter_2'', PStr ''Bea Cruz''), (''result'', PStr ''win'')]] ! 1)
       ''fighter_1_ufcwins'' = PStr ''0''
   \<and> get (compute_ufc_counters
          [[(''event_date'', PStr ''2024-06-01''), (''fighter_1'', PStr ''Ana Silva''),
            (''fighter_2'', PStr ''Cy Dunn''), (''result'', PStr ''loss'')],
           [(''event_date'', PStr ''2024-01-13''), (''fighter_1'', PStr ''Ana Silva''),
            (''fighter_2'', PStr ''Bea Cruz''), (''result'', PStr ''win'')]] ! 1)
       ''fighter_1_ufcloss'' = PStr ''0''
   \<and> get (compute_ufc_counters
          [[(''event_date'', PStr ''2024-06-01''), (''fighter_1'', PStr ''Ana Silva''),
            (''fighter_2'', PStr ''Cy Dunn''), (''result'', PStr ''loss'')],
           [(''event_date'', PStr ''2024-01-13''), (''fighter_1'', PStr ''Ana Silva''),
            (''fighter_2'', PStr ''Bea Cruz''), (''result'', PStr ''win'')]] ! 0)
       ''fighter_1_ufcwins'' = PStr ''1''
   \<and> get (compute_ufc_counters
          [[(''event_date'', PStr ''2024-06-01''), (''fighter_1'', PStr ''Ana Silva''),
            (''fighter_2'', PStr ''Cy Dunn''), (''result'', PStr ''loss'')],
           [(''event_date'', PStr ''2024-01-13''), (''fighter_1'', PStr ''Ana Silva''),
            (''fighter_2'', PStr ''Bea Cruz''), (''result'', PStr ''win'')]] ! 0)
       ''fighter_1_ufcloss'' = PStr ''0''"
proof -
  define rows :: "row list" where
    "rows = [[(''event_date'', PStr ''2024-06-01''), (''fighter_1'', PStr ''Ana Silva''),
            (''fighter_2'', PStr ''Cy Dunn''), (''result'', PStr ''loss'')],
           [(''event_date'', PStr ''2024-01-13''), (''fighter_1'', PStr ''Ana Silva''),
            (''fighter_2'', PStr ''Bea Cruz''), (''result'', PStr ''win'')]]"
  define chron :: "item list" where "chron = [((2024, 1, 13), F1, 1), ((2024, 6, 1), F1, 0)]"
  have m: "(''ana silva'', [((2024, 6, 1), F1, 0), ((2024, 1, 13), F1, 1)])
      \<in> set (build_timeline rows 0 [])"
    unfolding rows_def build_timeline_two_rows by simp
  have c: "chron = sort_key fst [((2024, 6, 1), F1, 0), ((2024, 1, 13), F1, 1)]"
    by (simp add: chron_def)
  have s: "str_nat 0 = ''0''" "str_nat (Suc 0) = ''1''"
    by (simp_all add: str_nat.simps digit_char_def)
  have u: "update_counters F1 (rows ! Suc 0) (0, 0) = (Suc 0, 0)"
    by (simp add: rows_def update_counters_def get_def or_empty_def strip_def is_space_def
        lower_def lower_char_def)
  have first: "get (compute_ufc_counters rows ! 1) ''fighter_1_ufcwins'' = PStr ''0''
      \<and> get (compute_ufc_counters rows ! 1) ''fighter_1_ufcloss'' = PStr ''0''"
    using tallies_before_each_fight [OF m c, of 0 "(2024, 1, 13)" F1 1, OF _ _ refl refl]
    by (simp add: chron_def s)
  have second: "get (compute_ufc_counters rows ! 0) ''fighter_1_ufcwins'' = PStr ''1''
      \<and> get (compute_ufc_counters rows ! 0) ''fighter_1_ufcloss'' = PStr ''0''"
    using tallies_before_each_fight [OF m c, of 1 "(2024, 6, 1)" F1 0, OF _ _ refl refl]
    by (simp add: chron_def s u)
  from first second show ?thesis unfolding rows_def by simp
qed

end
